theory Spec2Isabelle
  imports Complex_Main "HOL-Library.AList"
begin

section \<open>Codicon (vs/base/browser/ui/codiconLabel/codicons.ts)\<close>

text \<open>
  \<^verbatim>\<open>class Codicon { constructor(public readonly id: string) {} ... }\<close>
  The only field is the read-only \<^verbatim>\<open>id\<close>; it is called \<open>codicon_id\<close> here because
  \<open>id\<close> is the identity function of HOL. A getter is a method call on the object:
  it yields its value and the object as the call leaves it.
\<close>

datatype Codicon = Codicon (codicon_id: string)

definition className :: "Codicon \<Rightarrow> string \<times> Codicon" where
  "className c = (''codicon codicon-'' @ codicon_id c, c)"

definition cssSelector :: "Codicon \<Rightarrow> string \<times> Codicon" where
  "cssSelector c = (''.codicon.codicon-'' @ codicon_id c, c)"

section \<open>Plain JavaScript objects used as dictionaries\<close>

text \<open>
  \<^verbatim>\<open>iconsById\<close> and \<^verbatim>\<open>iconSchema.properties\<close> are object literals \<^verbatim>\<open>{}\<close> indexed by
  strings. Such an object is modelled by its own enumerable properties in creation order
  (\<open>own\<close>) and by the object that an assignment to the key \<^verbatim>\<open>__proto__\<close> installs as
  its prototype (\<open>proto\<close>, \<open>None\<close> for the initial \<^verbatim>\<open>Object.prototype\<close>):
  \<^item> \<^verbatim>\<open>o[k] = v\<close> overwrites the value of an own property in place, or creates the
    property at the end; for \<^verbatim>\<open>k = '__proto__'\<close> it runs the inherited setter, which
    replaces the prototype and creates no own property;
  \<^item> \<^verbatim>\<open>delete o[k]\<close> removes an own property and does nothing otherwise;
  \<^item> \<^verbatim>\<open>Object.keys(o)\<close> lists the own keys: array indices (canonical decimal numerals
    below \<open>2^32 - 1\<close>) first, in ascending numeric order, then the other keys in creation
    order;
  \<^item> \<^verbatim>\<open>o[k]\<close> for an own key \<open>k\<close> is the value stored under it.
\<close>

datatype 'v jsobj = JSObj (own: "(string \<times> 'v) list") (proto: "'v option")

definition js_empty :: "'v jsobj" where
  "js_empty = JSObj [] None"

definition js_set :: "string \<Rightarrow> 'v \<Rightarrow> 'v jsobj \<Rightarrow> 'v jsobj" where
  "js_set k v obj =
     (if k = ''__proto__'' then JSObj (own obj) (Some v)
      else JSObj (AList.update k v (own obj)) (proto obj))"

definition js_delete :: "string \<Rightarrow> 'v jsobj \<Rightarrow> 'v jsobj" where
  "js_delete k obj = JSObj (AList.delete k (own obj)) (proto obj)"

definition js_get_own :: "'v jsobj \<Rightarrow> string \<Rightarrow> 'v option" where
  "js_get_own obj k = map_of (own obj) k"

definition is_digit :: "char \<Rightarrow> bool" where
  "is_digit c = (48 \<le> (of_char c :: nat) \<and> (of_char c :: nat) \<le> 57)"

definition decimal_value :: "string \<Rightarrow> int" where
  "decimal_value s = foldl (\<lambda>n c. 10 * n + (of_char c - 48)) 0 s"

definition is_array_index :: "string \<Rightarrow> bool" where
  "is_array_index s =
     (s \<noteq> [] \<and> list_all is_digit s \<and> (hd s \<noteq> CHR ''0'' \<or> s = ''0'')
      \<and> decimal_value s < 4294967295)"

definition js_keys :: "'v jsobj \<Rightarrow> string list" where
  "js_keys obj =
     (let ks = map fst (own obj)
      in sort_key decimal_value (filter is_array_index ks)
         @ filter (\<lambda>k. \<not> is_array_index k) ks)"

section \<open>IconRegistry (vs/platform/theme/common/iconRegistry.ts)\<close>

text \<open>
  \<^verbatim>\<open>ThemeIcon\<close> is declared in themeService; the registry builds one as \<^verbatim>\<open>{ id }\<close>.
  An \<^verbatim>\<open>IconDefaults\<close> is a \<^verbatim>\<open>ThemeIcon\<close> or an \<^verbatim>\<open>IconDefinition\<close>
  (\<^verbatim>\<open>fontId?\<close>, \<^verbatim>\<open>character\<close>). An optional string is a \<open>string option\<close>,
  \<open>None\<close> for \<^verbatim>\<open>undefined\<close>.
\<close>

datatype ThemeIcon = ThemeIcon (themeicon_id: string)

datatype IconDefaults =
    DefaultsThemeIcon ThemeIcon
  | DefaultsIconDefinition "string option" string

record IconContribution =
  icon_id :: string
  description :: string
  deprecationMessage :: "string option"
  defaults :: IconDefaults

text \<open>The property schema that \<^verbatim>\<open>registerIcon\<close> stores in \<^verbatim>\<open>iconSchema.properties\<close>.\<close>

record PropertySchema =
  ref :: string
  schema_deprecationMessage :: "string option"
  markdownDescription :: string

text \<open>
  The registry: \<^verbatim>\<open>iconsById\<close>, the \<^verbatim>\<open>properties\<close> of \<^verbatim>\<open>iconSchema\<close> (its other
  members never change), the two arrays of \<^verbatim>\<open>iconReferenceSchema\<close>, and the number of
  times \<^verbatim>\<open>_onDidChangeSchema.fire()\<close> has run.
\<close>

record IconRegistry =
  iconsById :: "IconContribution jsobj"
  iconSchema_properties :: "PropertySchema jsobj"
  enum :: "string list"
  enumDescriptions :: "string list"
  fired :: nat

definition new_IconRegistry :: IconRegistry where
  "new_IconRegistry =
     \<lparr>iconsById = js_empty, iconSchema_properties = js_empty,
      enum = [], enumDescriptions = [], fired = 0\<rparr>"

text \<open>Truthiness of an optional string: \<^verbatim>\<open>undefined\<close> and \<^verbatim>\<open>''\<close> are falsy.\<close>

definition truthy :: "string option \<Rightarrow> bool" where
  "truthy s = (case s of None \<Rightarrow> False | Some t \<Rightarrow> t \<noteq> [])"

text \<open>
  \<^verbatim>\<open>localize\<close> comes from vs/nls and is a parameter: it receives the key, the default
  message and the argument.
\<close>

type_synonym localize_fn = "string \<Rightarrow> string \<Rightarrow> string \<Rightarrow> string"

definition effective_description :: "localize_fn \<Rightarrow> string \<Rightarrow> string option \<Rightarrow> string" where
  "effective_description localize i d =
     (case d of
        Some t \<Rightarrow> if t \<noteq> [] then t
                  else localize ''icon.defaultDescription'' ''Icon with identifier {0}'' i
      | None \<Rightarrow> localize ''icon.defaultDescription'' ''Icon with identifier {0}'' i)"

definition registerIcon ::
  "localize_fn \<Rightarrow> string \<Rightarrow> IconDefaults \<Rightarrow> string option \<Rightarrow> string option
     \<Rightarrow> IconRegistry \<Rightarrow> ThemeIcon \<times> IconRegistry" where
  "registerIcon localize i dflts descr depr r =
     (let d = effective_description localize i descr;
          iconContribution =
            \<lparr>icon_id = i, description = d, deprecationMessage = depr, defaults = dflts\<rparr>;
          propertySchema =
            \<lparr>ref = ''#/definitions/icons'',
             schema_deprecationMessage = (if truthy depr then depr else None),
             markdownDescription = d @ '': $('' @ i @ '')''\<rparr>
      in (ThemeIcon i,
          r\<lparr>iconsById := js_set i iconContribution (iconsById r),
            iconSchema_properties := js_set i propertySchema (iconSchema_properties r),
            enum := enum r @ [i],
            enumDescriptions := enumDescriptions r @ [d],
            fired := fired r + 1\<rparr>))"

text \<open>
  \<^verbatim>\<open>Array.prototype.indexOf\<close> (first position of a strictly equal element, \<open>-1\<close> when
  there is none) and \<^verbatim>\<open>Array.prototype.splice(start, deleteCount, ...items)\<close> with its
  clamping of both arguments.
\<close>

fun indexOf :: "'a list \<Rightarrow> 'a \<Rightarrow> int" where
  "indexOf [] x = - 1"
| "indexOf (y # ys) x =
     (if y = x then 0 else (let k = indexOf ys x in if k = - 1 then - 1 else k + 1))"

definition array_splice :: "int \<Rightarrow> int \<Rightarrow> 'a list \<Rightarrow> 'a list \<Rightarrow> 'a list" where
  "array_splice start deleteCount items xs =
     (let len = int (length xs);
          actualStart = (if start < 0 then max (len + start) 0 else min start len);
          actualDeleteCount = min (max deleteCount 0) (len - actualStart)
      in take (nat actualStart) xs @ items @ drop (nat (actualStart + actualDeleteCount)) xs)"

definition deregisterIcon :: "string \<Rightarrow> IconRegistry \<Rightarrow> IconRegistry" where
  "deregisterIcon i r =
     (let index = indexOf (enum r) i;
          r1 = r\<lparr>iconsById := js_delete i (iconsById r),
                 iconSchema_properties := js_delete i (iconSchema_properties r)\<rparr>;
          r2 = (if index \<noteq> - 1
                then r1\<lparr>enum := array_splice index 1 [] (enum r1),
                        enumDescriptions := array_splice index 1 [] (enumDescriptions r1)\<rparr>
                else r1)
      in r2\<lparr>fired := fired r2 + 1\<rparr>)"

text \<open>
  \<^verbatim>\<open>Object.keys(this.iconsById).map(id => this.iconsById[id])\<close>: every key that
  \<^verbatim>\<open>Object.keys\<close> returns is an own property, so no lookup yields \<^verbatim>\<open>undefined\<close>.
\<close>

definition getIcons :: "IconRegistry \<Rightarrow> IconContribution list" where
  "getIcons r = List.map_filter (js_get_own (iconsById r)) (js_keys (iconsById r))"

definition getIconReferenceSchema_enum :: "IconRegistry \<Rightarrow> string list" where
  "getIconReferenceSchema_enum r = enum r"

text \<open>A history of calls on the registry, run from left to right.\<close>

datatype registry_call =
    Register string IconDefaults "string option" "string option"
  | Deregister string

fun call_id :: "registry_call \<Rightarrow> string" where
  "call_id (Register i dflts descr depr) = i"
| "call_id (Deregister i) = i"

fun do_call :: "localize_fn \<Rightarrow> registry_call \<Rightarrow> IconRegistry \<Rightarrow> IconRegistry" where
  "do_call localize (Register i dflts descr depr) r = snd (registerIcon localize i dflts descr depr r)"
| "do_call localize (Deregister i) r = deregisterIcon i r"

fun do_calls :: "localize_fn \<Rightarrow> registry_call list \<Rightarrow> IconRegistry \<Rightarrow> IconRegistry" where
  "do_calls localize [] r = r"
| "do_calls localize (c # cs) r = do_calls localize cs (do_call localize c r)"

text \<open>
  The invariant of \<^verbatim>\<open>iconsById\<close> that every run of calls keeps: no key occurs twice
  among the own properties, and each contribution is stored under its own id.
\<close>

definition reg_inv :: "IconRegistry \<Rightarrow> bool" where
  "reg_inv r =
     (distinct (map fst (own (iconsById r)))
      \<and> list_all (\<lambda>(k, c). icon_id c = k) (own (iconsById r)))"

section \<open>DisassemblyView: loading instructions as the table scrolls\<close>

text \<open>
  \<^verbatim>\<open>DebugProtocol.DisassembledInstruction\<close> is declared outside these files. The view
  copies the values it receives into table rows and reads nothing of them but the
  \<^verbatim>\<open>address\<close> that identifies a row, so the type is a parameter \<open>'i\<close> and the address
  accessor is a parameter of the statements about identity keys.
\<close>

definition NUM_INSTRUCTIONS_TO_LOAD :: int where
  "NUM_INSTRUCTIONS_TO_LOAD = 50"

record 'i IDisassembledInstructionEntry =
  allowBreakpoint :: bool
  isBreakpointSet :: bool
  instruction :: 'i

definition new_entry :: "'i \<Rightarrow> 'i IDisassembledInstructionEntry" where
  "new_entry x = \<lparr>allowBreakpoint = True, isBreakpointSet = False, instruction = x\<rparr>"

text \<open>\<^verbatim>\<open>identityProvider: { getId: e => e.instruction.address }\<close>\<close>

definition getId :: "('i \<Rightarrow> 'k) \<Rightarrow> 'i IDisassembledInstructionEntry \<Rightarrow> 'k" where
  "getId address e = address (instruction e)"

text \<open>
  The members of a scroll event that the handler reads. Scroll positions and sizes are
  whole pixels, and so is the line height of the font.
\<close>

record ScrollEvent =
  oldScrollTop :: int
  scrollTop :: int
  height :: int
  scrollHeight :: int

text \<open>
  What the promise returned by \<^verbatim>\<open>getDisassemble\<close> does: it resolves to an array,
  resolves to a falsy value, or rejects.
\<close>

datatype 'i disassemble_result = Entries "'i list" | NoResult | Rejected

datatype load_error = SourceRejected | ListError | TypeError

text \<open>
  The callback attached by \<^verbatim>\<open>.then\<close> to a load: none (forward load),
  \<^verbatim>\<open>this._disassembledInstructions?.reveal(index, relativeTop)\<close> (first load) or
  \<^verbatim>\<open>this._disassembledInstructions!.reveal(topElement, 0)\<close> (backward load). The row
  index of the last is \<open>None\<close> when \<^verbatim>\<open>Math.floor(scrollTop / lineHeight)\<close> is not a
  finite number.
\<close>

datatype then_callback =
    NoCallback
  | RevealOptional int real
  | RevealAsserted "int option" real

text \<open>A call of \<^verbatim>\<open>loadDisassembledInstructions\<close> that is waiting for the source.\<close>

record pending_load =
  offset :: int
  instructionCount :: int
  callback :: then_callback

text \<open>
  The view: \<^verbatim>\<open>_fontInfo.lineHeight\<close>, the rows of \<^verbatim>\<open>_disassembledInstructions\<close>
  (\<open>None\<close> while the field is \<^verbatim>\<open>null\<close>), \<^verbatim>\<open>_lastOffset\<close>, the loads that wait for
  the source in the order they were issued, the calls of \<^verbatim>\<open>reveal\<close> made so far, and
  the exceptions thrown so far.
\<close>

record 'i DisassemblyView =
  lineHeight :: int
  disassembledInstructions :: "'i IDisassembledInstructionEntry list option"
  lastOffset :: int
  pending :: "pending_load list"
  reveals :: "(int option \<times> real) list"
  errors :: "load_error list"

definition window :: "'i DisassemblyView \<Rightarrow> 'i IDisassembledInstructionEntry list" where
  "window s = (case disassembledInstructions s of None \<Rightarrow> [] | Some rows \<Rightarrow> rows)"

text \<open>The state the constructor leaves: no table, \<^verbatim>\<open>_lastOffset = 0\<close>.\<close>

definition constructed :: "int \<Rightarrow> 'i DisassemblyView" where
  "constructed lh =
     \<lparr>lineHeight = lh, disassembledInstructions = None, lastOffset = 0,
      pending = [], reveals = [], errors = []\<rparr>"

text \<open>
  Modelled from the spec: \<^verbatim>\<open>WorkbenchTable\<close> is not among these files. Its rows are the
  Window of the spec, an ordered sequence indexed contiguously from 0, and
  \<^verbatim>\<open>splice(start, 0, elements)\<close> inserts the elements before the row at index
  \<open>start\<close>. A start index outside \<open>0..length\<close> is refused with an error.
\<close>

definition table_splice :: "int \<Rightarrow> 'a list \<Rightarrow> 'a list \<Rightarrow> load_error + 'a list" where
  "table_splice start elements rows =
     (if start < 0 \<or> int (length rows) < start then Inl ListError
      else Inr (take (nat start) rows @ elements @ drop (nat start) rows))"

text \<open>
  \<^verbatim>\<open>loadDisassembledInstructions\<close> up to its \<^verbatim>\<open>await\<close>: the request goes to the source
  and the call waits. The callback that the caller attaches with \<^verbatim>\<open>.then\<close> is kept
  with it.
\<close>

definition loadDisassembledInstructions ::
  "int \<Rightarrow> int \<Rightarrow> then_callback \<Rightarrow> 'i DisassemblyView \<Rightarrow> 'i DisassemblyView" where
  "loadDisassembledInstructions off cnt cb s =
     s\<lparr>pending := pending s @ [\<lparr>offset = off, instructionCount = cnt, callback = cb\<rparr>]\<rparr>"

text \<open>
  \<^verbatim>\<open>loadDisassembledInstructions\<close> after its \<^verbatim>\<open>await\<close>. \<open>Inl\<close> is the promise of the
  call rejecting: the source rejected, or \<^verbatim>\<open>splice\<close> threw.
\<close>

definition loadDisassembledInstructions_resume ::
  "pending_load \<Rightarrow> 'i disassemble_result \<Rightarrow> 'i DisassemblyView
     \<Rightarrow> load_error + 'i DisassemblyView" where
  "loadDisassembledInstructions_resume p res s =
     (case res of
        Rejected \<Rightarrow> Inl SourceRejected
      | NoResult \<Rightarrow> Inr s
      | Entries resultEntries \<Rightarrow>
          (case disassembledInstructions s of
             None \<Rightarrow> Inr s
           | Some rows \<Rightarrow>
               (let newEntries = map new_entry resultEntries
                in case (if offset p \<ge> 0 then table_splice (offset p) newEntries rows
                         else table_splice 0 newEntries rows) of
                     Inl e \<Rightarrow> Inl e
                   | Inr rows' \<Rightarrow> Inr (s\<lparr>disassembledInstructions := Some rows'\<rparr>))))"

text \<open>The \<^verbatim>\<open>.then\<close> callback, run when the promise of the call resolves.\<close>

definition run_callback :: "then_callback \<Rightarrow> 'i DisassemblyView \<Rightarrow> 'i DisassemblyView" where
  "run_callback cb s =
     (case cb of
        NoCallback \<Rightarrow> s
      | RevealOptional index relativeTop \<Rightarrow>
          (case disassembledInstructions s of
             None \<Rightarrow> s
           | Some rows \<Rightarrow> s\<lparr>reveals := reveals s @ [(Some index, relativeTop)]\<rparr>)
      | RevealAsserted index relativeTop \<Rightarrow>
          (case disassembledInstructions s of
             None \<Rightarrow> s\<lparr>errors := errors s @ [TypeError]\<rparr>
           | Some rows \<Rightarrow> s\<lparr>reveals := reveals s @ [(index, relativeTop)]\<rparr>))"

text \<open>
  \<^verbatim>\<open>createEditor\<close>: the table is created empty, \<^verbatim>\<open>_lastOffset\<close> becomes
  \<open>- NUM_INSTRUCTIONS_TO_LOAD\<close>, and the first load is issued with that offset.
\<close>

definition createEditor :: "'i DisassemblyView \<Rightarrow> 'i DisassemblyView" where
  "createEditor s =
     (let s1 = s\<lparr>disassembledInstructions := Some [],
                 lastOffset := - NUM_INSTRUCTIONS_TO_LOAD\<rparr>
      in loadDisassembledInstructions (lastOffset s1) NUM_INSTRUCTIONS_TO_LOAD
           (RevealOptional NUM_INSTRUCTIONS_TO_LOAD 0.5) s1)"

text \<open>
  The two conditions of the scroll handler. In the forward branch
  \<^verbatim>\<open>this._disassembledInstructions!.length\<close> throws a TypeError when the field is
  \<^verbatim>\<open>null\<close>.
\<close>

definition backward_cond :: "ScrollEvent \<Rightarrow> bool" where
  "backward_cond e = (oldScrollTop e > scrollTop e \<and> scrollTop e < height e)"

definition forward_cond :: "ScrollEvent \<Rightarrow> bool" where
  "forward_cond e =
     (oldScrollTop e < scrollTop e \<and> scrollTop e + height e > scrollHeight e - height e)"

text \<open>
  \<^verbatim>\<open>Math.floor(e.scrollTop / this._fontInfo.lineHeight) + NUM_INSTRUCTIONS_TO_LOAD\<close>. The
  quotient of a division by zero is infinite or not a number, and so is the sum.
\<close>

definition topElement_of :: "int \<Rightarrow> int \<Rightarrow> int option" where
  "topElement_of st lh = (if lh = 0 then None else Some (st div lh + NUM_INSTRUCTIONS_TO_LOAD))"

definition onDidScroll :: "ScrollEvent \<Rightarrow> 'i DisassemblyView \<Rightarrow> 'i DisassemblyView" where
  "onDidScroll e s =
     (if backward_cond e then
        (let topElement = topElement_of (scrollTop e) (lineHeight s);
             s1 = s\<lparr>lastOffset := lastOffset s - NUM_INSTRUCTIONS_TO_LOAD\<rparr>
         in loadDisassembledInstructions (lastOffset s1) NUM_INSTRUCTIONS_TO_LOAD
              (RevealAsserted topElement 0) s1)
      else if forward_cond e then
        (case disassembledInstructions s of
           None \<Rightarrow> s\<lparr>errors := errors s @ [TypeError]\<rparr>
         | Some rows \<Rightarrow>
             loadDisassembledInstructions (int (length rows)) NUM_INSTRUCTIONS_TO_LOAD
               NoCallback s)
      else s)"

text \<open>
  The source settles the \<open>k\<close>-th waiting load with \<open>res\<close>: the call resumes, and its
  callback runs if its promise resolves. A rejection is recorded and changes nothing else.
  The resumption and the callback are one step here, and a call of \<^verbatim>\<open>reveal\<close> is
  recorded with its arguments only: what the table does with them is outside these files.
\<close>

definition settle :: "nat \<Rightarrow> 'i disassemble_result \<Rightarrow> 'i DisassemblyView \<Rightarrow> 'i DisassemblyView" where
  "settle k res s =
     (if k < length (pending s) then
        (let p = pending s ! k;
             s1 = s\<lparr>pending := take k (pending s) @ drop (Suc k) (pending s)\<rparr>
         in case loadDisassembledInstructions_resume p res s1 of
              Inl err \<Rightarrow> s1\<lparr>errors := errors s1 @ [err]\<rparr>
            | Inr s2 \<Rightarrow> run_callback (callback p) s2)
      else s)"

text \<open>
  What can happen to the view after \<^verbatim>\<open>createEditor\<close>: the table scrolls, a waiting load
  settles, or the editor configuration changes the line height.
\<close>

datatype 'i event =
    Scroll ScrollEvent
  | Settle nat "'i disassemble_result"
  | ConfigurationChanged int

fun step :: "'i event \<Rightarrow> 'i DisassemblyView \<Rightarrow> 'i DisassemblyView" where
  "step (Scroll e) s = onDidScroll e s"
| "step (Settle k res) s = settle k res s"
| "step (ConfigurationChanged lh) s = s\<lparr>lineHeight := lh\<rparr>"

fun run :: "'i event list \<Rightarrow> 'i DisassemblyView \<Rightarrow> 'i DisassemblyView" where
  "run [] s = s"
| "run (ev # evs) s = run evs (step ev s)"

text \<open>The view after \<^verbatim>\<open>createEditor\<close> and the events \<open>evs\<close>.\<close>

definition after :: "int \<Rightarrow> 'i event list \<Rightarrow> 'i DisassemblyView" where
  "after lh evs = run evs (createEditor (constructed lh))"

text \<open>
  Modelled from the spec: the paged source (\<^verbatim>\<open>getDisassemble\<close> of the debug service)
  is not among these files. It yields an ordered sequence of at most the requested number
  of rows for an anchor, and pages for disjoint anchors are disjoint and in order: the
  source holds the row \<open>src p\<close> at every logical position \<open>p\<close> and answers a request
  anchored at \<open>a\<close> with the rows at \<open>a, a + 1, \<dots>\<close>; \<open>n\<close> is the number of rows it
  returns, which is less than the number requested when the source is exhausted.
\<close>

definition source_page :: "(int \<Rightarrow> 'i) \<Rightarrow> int \<Rightarrow> nat \<Rightarrow> 'i disassemble_result" where
  "source_page src a n = Entries (map src [a..a + int n - 1])"

text \<open>
  One fetch-and-merge operation: a scroll event, and the load it issues (if any) settled
  by the source with \<open>n\<close> rows before anything else happens.
\<close>

definition fetch_and_merge ::
  "(int \<Rightarrow> 'i) \<Rightarrow> ScrollEvent \<times> nat \<Rightarrow> 'i DisassemblyView \<Rightarrow> 'i DisassemblyView" where
  "fetch_and_merge src en s =
     (let s1 = onDidScroll (fst en) s
      in if length (pending s1) = length (pending s) then s1
         else settle (length (pending s1) - 1)
                (source_page src (offset (last (pending s1))) (snd en)) s1)"

fun fetch_and_merge_all ::
  "(int \<Rightarrow> 'i) \<Rightarrow> (ScrollEvent \<times> nat) list \<Rightarrow> 'i DisassemblyView \<Rightarrow> 'i DisassemblyView" where
  "fetch_and_merge_all src [] s = s"
| "fetch_and_merge_all src (en # ens) s = fetch_and_merge_all src ens (fetch_and_merge src en s)"

text \<open>\<^verbatim>\<open>createEditor\<close> with its first load settled by the source with \<open>n\<close> rows.\<close>

definition initialize :: "(int \<Rightarrow> 'i) \<Rightarrow> nat \<Rightarrow> int \<Rightarrow> 'i DisassemblyView" where
  "initialize src n lh =
     (let s0 = createEditor (constructed lh)
      in settle 0 (source_page src (offset (hd (pending s0))) n) s0)"

text \<open>The scroll events that take the backward branch of the handler.\<close>

fun is_backward_scroll :: "'i event \<Rightarrow> bool" where
  "is_backward_scroll (Scroll e) = backward_cond e"
| "is_backward_scroll (Settle k res) = False"
| "is_backward_scroll (ConfigurationChanged lh) = False"

text \<open>
  Runs in which the source behaves as above and no forward load is issued while another
  forward load is waiting. The source answers the load \<open>p\<close> when it fails, yields no
  result, or yields at most 50 rows, those at the positions from the offset of \<open>p\<close> on.
  A waiting load with a negative offset is the first load or a backward load; a forward
  load has the length of the table as its offset.
\<close>

fun answers :: "(int \<Rightarrow> 'i) \<Rightarrow> pending_load \<Rightarrow> 'i disassemble_result \<Rightarrow> bool" where
  "answers src p (Entries es) =
     (length es \<le> 50 \<and> es = map src [offset p..offset p + int (length es) - 1])"
| "answers src p NoResult = True"
| "answers src p Rejected = True"

fun allowed :: "(int \<Rightarrow> 'i) \<Rightarrow> 'i event \<Rightarrow> 'i DisassemblyView \<Rightarrow> bool" where
  "allowed src (Scroll e) s = (forward_cond e \<longrightarrow> list_all (\<lambda>p. offset p < 0) (pending s))"
| "allowed src (Settle k res) s = (k < length (pending s) \<longrightarrow> answers src (pending s ! k) res)"
| "allowed src (ConfigurationChanged lh) s = True"

fun allowed_run :: "(int \<Rightarrow> 'i) \<Rightarrow> 'i event list \<Rightarrow> 'i DisassemblyView \<Rightarrow> bool" where
  "allowed_run src [] s = True"
| "allowed_run src (ev # evs) s = (allowed src ev s \<and> allowed_run src evs (step ev s))"

text \<open>
  The invariant of the view after \<^verbatim>\<open>createEditor\<close>: the table exists, \<^verbatim>\<open>_lastOffset\<close>
  is at most \<open>- NUM_INSTRUCTIONS_TO_LOAD\<close>, and a waiting load with a non-negative offset
  was issued at a table length that the table still has or exceeds.
\<close>

definition view_inv :: "'i DisassemblyView \<Rightarrow> bool" where
  "view_inv s =
     (disassembledInstructions s \<noteq> None
      \<and> lastOffset s \<le> - NUM_INSTRUCTIONS_TO_LOAD
      \<and> list_all (\<lambda>p. offset p < 0 \<or> offset p \<le> int (length (window s))) (pending s))"

text \<open>
  The invariant of the positions \<open>ps\<close> of the rows of the table in such a run. No position
  occurs twice; \<^verbatim>\<open>_lastOffset\<close> is a multiple of 50 and no negative position is below
  it; the positions from 0 on are below the length of the table; the page of a waiting
  load with a negative offset (a multiple of 50, not below \<^verbatim>\<open>_lastOffset\<close>) holds no
  position of the table, and no two such loads have the same offset; the positions of the
  table are below the offset of a waiting forward load, of which there is at most one.
\<close>

definition pos_inv :: "int list \<Rightarrow> 'i DisassemblyView \<Rightarrow> bool" where
  "pos_inv ps s =
     (distinct ps
      \<and> lastOffset s mod 50 = 0
      \<and> list_all (\<lambda>p. if p < 0 then lastOffset s \<le> p else p < int (length ps)) ps
      \<and> list_all (\<lambda>q. if offset q < 0
                       then lastOffset s \<le> offset q \<and> offset q mod 50 = 0
                            \<and> list_all (\<lambda>p. \<not> (offset q \<le> p \<and> p < offset q + 50)) ps
                       else list_all (\<lambda>p. p < offset q) ps) (pending s)
      \<and> distinct (filter (\<lambda>a. a < 0) (map offset (pending s)))
      \<and> length (filter (\<lambda>q. 0 \<le> offset q) (pending s)) \<le> 1)"

section \<open>Concrete inputs\<close>

text \<open>A stand-in for \<^verbatim>\<open>localize\<close> that returns the default message as it is.\<close>

definition localize_plain :: localize_fn where
  "localize_plain key message arg = message"

text \<open>
  A source whose row at logical position \<open>p\<close> is identified by \<open>p\<close> itself, and the
  address of such a row.
\<close>

definition position_source :: "int \<Rightarrow> int" where
  "position_source p = p"

definition row_address :: "int \<Rightarrow> int" where
  "row_address r = r"

text \<open>
  Scrolling up to the top (from 100 to 10 and then from 10 to 0, in a viewport of height
  500) and scrolling down to the bottom (from 0 to 10 and then from 10 to 20, with 900 of
  content).
\<close>

definition scroll_up :: ScrollEvent where
  "scroll_up = \<lparr>oldScrollTop = 100, scrollTop = 10, height = 500, scrollHeight = 900\<rparr>"

definition scroll_up_more :: ScrollEvent where
  "scroll_up_more = \<lparr>oldScrollTop = 10, scrollTop = 0, height = 500, scrollHeight = 900\<rparr>"

definition scroll_down :: ScrollEvent where
  "scroll_down = \<lparr>oldScrollTop = 0, scrollTop = 10, height = 500, scrollHeight = 900\<rparr>"

definition scroll_down_more :: ScrollEvent where
  "scroll_down_more = \<lparr>oldScrollTop = 10, scrollTop = 20, height = 500, scrollHeight = 900\<rparr>"

text \<open>
  The defaults of the first registration of the file, \<^verbatim>\<open>registerIcon('add', ...)\<close>:
  an icon definition without a font id. Its character literal is the string \<open>ea60\<close>
  at run time.
\<close>

definition add_defaults :: IconDefaults where
  "add_defaults = DefaultsIconDefinition None ''ea60''"

section \<open>Lemmas about the registry\<close>

lemma indexOf_absent: "x \<notin> set xs \<Longrightarrow> indexOf xs x = - 1"
  by (induction xs) (auto simp: Let_def)

lemma indexOf_present: "x \<in> set xs \<Longrightarrow> 0 \<le> indexOf xs x \<and> indexOf xs x < int (length xs)"
  by (induction xs) (auto simp: Let_def)

lemma indexOf_minus1_iff: "indexOf xs x = - 1 \<longleftrightarrow> x \<notin> set xs"
  using indexOf_absent [of x xs] indexOf_present [of x xs] by auto

lemma splice_indexOf_remove1:
  "x \<in> set xs \<Longrightarrow> array_splice (indexOf xs x) 1 [] xs = remove1 x xs"
proof (induction xs)
  case Nil
  then show ?case by simp
next
  case (Cons y ys)
  show ?case
  proof (cases "y = x")
    case True
    then show ?thesis by (simp add: array_splice_def)
  next
    case False
    with Cons.prems have mem: "x \<in> set ys" by simp
    from indexOf_present [OF mem] have r: "indexOf ys x \<noteq> - 1" "0 \<le> indexOf ys x" "indexOf ys x < int (length ys)" by auto
    from Cons.IH [OF mem] r have "take (nat (indexOf ys x)) ys @ drop (nat (indexOf ys x + 1)) ys = remove1 x ys"
      by (simp add: array_splice_def Let_def min_def max_def split: if_splits)
    with False r show ?thesis
      by (simp add: array_splice_def Let_def min_def max_def nat_add_distrib)
  qed
qed

lemma count_list_remove1_other: "x \<noteq> y \<Longrightarrow> count_list (remove1 y xs) x = count_list xs x"
  by (induction xs) auto

lemma count_list_remove1_same: "x \<in> set xs \<Longrightarrow> count_list (remove1 x xs) x + 1 = count_list xs x"
  by (induction xs) auto

lemma enum_deregisterIcon: "enum (deregisterIcon i r) = remove1 i (enum r)"
  by (auto simp: deregisterIcon_def Let_def indexOf_minus1_iff splice_indexOf_remove1 remove1_idem)

lemma enum_registerIcon: "enum (snd (registerIcon L i d ds dp r)) = enum r @ [i]"
  by (simp add: registerIcon_def Let_def)

lemma reg_inv_new: "reg_inv new_IconRegistry"
  by (simp add: reg_inv_def new_IconRegistry_def js_empty_def)

lemma list_all_update:
  "list_all P al \<Longrightarrow> P (k, v) \<Longrightarrow> list_all P (AList.update k v al)"
  by (induction al) auto

lemma list_all_delete: "list_all P al \<Longrightarrow> list_all P (AList.delete k al)"
  by (induction al) auto

lemma reg_inv_registerIcon: "reg_inv r \<Longrightarrow> reg_inv (snd (registerIcon L i d ds dp r))"
  by (simp add: reg_inv_def registerIcon_def Let_def js_set_def distinct_update list_all_update)

lemma reg_inv_deregisterIcon: "reg_inv r \<Longrightarrow> reg_inv (deregisterIcon i r)"
  by (simp add: reg_inv_def deregisterIcon_def Let_def js_delete_def distinct_delete list_all_delete)

lemma reg_inv_do_call: "reg_inv r \<Longrightarrow> reg_inv (do_call L c r)"
  by (cases c) (simp_all add: reg_inv_registerIcon reg_inv_deregisterIcon)

lemma reg_inv_do_calls: "reg_inv r \<Longrightarrow> reg_inv (do_calls L cs r)"
  by (induction cs arbitrary: r) (simp_all add: reg_inv_do_call)

lemma set_js_keys: "set (js_keys obj) = fst ` set (own obj)"
  by (auto simp: js_keys_def Let_def)

lemma distinct_js_keys: "distinct (map fst (own obj)) \<Longrightarrow> distinct (js_keys obj)"
  by (auto simp: js_keys_def Let_def)

lemma filter_eq_distinct:
  "distinct xs \<Longrightarrow> filter (\<lambda>x. x = i) xs = (if i \<in> set xs then [i] else [])"
  by (induction xs) auto

lemma filter_map_filter_keys:
  "\<forall>k \<in> set ks. \<forall>c. f k = Some c \<longrightarrow> g c = k \<Longrightarrow>
   filter (\<lambda>c. g c = i) (List.map_filter f ks) = List.map_filter f (filter (\<lambda>k. k = i) ks)"
  by (induction ks) (auto simp: List.map_filter_simps split: option.splits)

lemma getIcons_for_id:
  assumes "reg_inv r"
  shows "filter (\<lambda>c. icon_id c = i) (getIcons r)
         = (case js_get_own (iconsById r) i of None \<Rightarrow> [] | Some c \<Rightarrow> [c])"
proof -
  let ?obj = "iconsById r"
  from assms have d: "distinct (map fst (own ?obj))"
    and v: "list_all (\<lambda>(k, c). icon_id c = k) (own ?obj)"
    by (simp_all add: reg_inv_def)
  have ids: "\<forall>k \<in> set (js_keys ?obj). \<forall>c. js_get_own ?obj k = Some c \<longrightarrow> icon_id c = k"
  proof (intro ballI allI impI)
    fix k c
    assume "js_get_own ?obj k = Some c"
    then have "(k, c) \<in> set (own ?obj)"
      by (simp add: js_get_own_def map_of_SomeD)
    with v show "icon_id c = k"
      by (auto simp: list_all_iff)
  qed
  have "filter (\<lambda>c. icon_id c = i) (getIcons r)
        = List.map_filter (js_get_own ?obj) (filter (\<lambda>k. k = i) (js_keys ?obj))"
    unfolding getIcons_def using ids by (rule filter_map_filter_keys)
  also have "\<dots> = List.map_filter (js_get_own ?obj) (if i \<in> fst ` set (own ?obj) then [i] else [])"
    by (simp only: filter_eq_distinct [OF distinct_js_keys [OF d]] set_js_keys)
  also have "\<dots> = (case js_get_own ?obj i of None \<Rightarrow> [] | Some c \<Rightarrow> [c])"
    by (auto simp: List.map_filter_simps js_get_own_def map_of_eq_None_iff split: option.splits
        dest!: map_of_SomeD intro: rev_image_eqI)
  finally show ?thesis .
qed

lemma get_own_registerIcon:
  "i \<noteq> ''__proto__'' \<Longrightarrow>
   js_get_own (iconsById (snd (registerIcon L i d ds dp r))) i
   = Some \<lparr>icon_id = i, description = effective_description L i ds,
            deprecationMessage = dp, defaults = d\<rparr>"
  by (simp add: registerIcon_def Let_def js_set_def js_get_own_def update_conv')

lemma count_enum_do_call:
  "call_id c \<noteq> i \<Longrightarrow> count_list (enum (do_call L c r)) i = count_list (enum r) i"
  by (cases c) (simp_all add: enum_registerIcon enum_deregisterIcon count_list_remove1_other)

lemma count_enum_do_calls:
  "\<forall>c \<in> set cs. call_id c \<noteq> i \<Longrightarrow>
   count_list (enum (do_calls L cs r)) i = count_list (enum r) i"
  by (induction cs arbitrary: r) (simp_all add: count_enum_do_call)

section \<open>Lemmas about the view\<close>

lemmas view_defs =
  loadDisassembledInstructions_def NUM_INSTRUCTIONS_TO_LOAD_def window_def Let_def

lemma view_inv_createEditor: "view_inv (createEditor (constructed lh))"
  by (simp add: view_inv_def createEditor_def constructed_def view_defs)

lemma view_inv_onDidScroll: "view_inv s \<Longrightarrow> view_inv (onDidScroll e s)"
  by (auto simp: view_inv_def onDidScroll_def view_defs split: option.splits)

lemma resume_Entries:
  assumes "disassembledInstructions s = Some rows"
    and "offset p < 0 \<or> offset p \<le> int (length rows)"
  shows "loadDisassembledInstructions_resume p (Entries es) s
         = Inr (s\<lparr>disassembledInstructions :=
                   Some (if 0 \<le> offset p
                         then take (nat (offset p)) rows @ map new_entry es @ drop (nat (offset p)) rows
                         else map new_entry es @ rows)\<rparr>)"
  using assms by (auto simp: loadDisassembledInstructions_resume_def table_splice_def Let_def)

lemma resume_NoResult: "loadDisassembledInstructions_resume p NoResult s = Inr s"
  by (simp add: loadDisassembledInstructions_resume_def)

lemma resume_Rejected: "loadDisassembledInstructions_resume p Rejected s = Inl SourceRejected"
  by (simp add: loadDisassembledInstructions_resume_def)

lemma window_run_callback [simp]: "window (run_callback cb s) = window s"
  by (cases cb) (auto simp: run_callback_def window_def split: option.splits)

lemma table_run_callback [simp]:
  "disassembledInstructions (run_callback cb s) = disassembledInstructions s"
  by (cases cb) (auto simp: run_callback_def split: option.splits)

lemma pending_run_callback [simp]: "pending (run_callback cb s) = pending s"
  by (cases cb) (auto simp: run_callback_def split: option.splits)

lemma lastOffset_run_callback [simp]: "lastOffset (run_callback cb s) = lastOffset s"
  by (cases cb) (auto simp: run_callback_def split: option.splits)

lemma errors_run_callback:
  "disassembledInstructions s \<noteq> None \<Longrightarrow> errors (run_callback cb s) = errors s"
  by (cases cb) (auto simp: run_callback_def split: option.splits)

lemma list_all_remove_nth:
  "list_all P xs \<Longrightarrow> list_all P (take k xs @ drop (Suc k) xs)"
  by (auto simp: list_all_iff dest: in_set_takeD in_set_dropD)

lemma list_all_mono_len:
  "list_all (\<lambda>p. offset p < 0 \<or> offset p \<le> int n) ps \<Longrightarrow> n \<le> m \<Longrightarrow>
   list_all (\<lambda>p. offset p < 0 \<or> offset p \<le> int m) ps"
  by (auto simp: list_all_iff)

text \<open>What settling does to a view that satisfies the invariant.\<close>

lemma settle_Entries:
  assumes inv: "view_inv s" and k: "k < length (pending s)"
  shows "settle k (Entries es) s
         = run_callback (callback (pending s ! k))
             (s\<lparr>pending := take k (pending s) @ drop (Suc k) (pending s),
                disassembledInstructions :=
                  Some (if 0 \<le> offset (pending s ! k)
                        then take (nat (offset (pending s ! k))) (window s) @ map new_entry es
                             @ drop (nat (offset (pending s ! k))) (window s)
                        else map new_entry es @ window s)\<rparr>)"
proof -
  from inv obtain rows where rows: "disassembledInstructions s = Some rows"
    by (auto simp: view_inv_def)
  from inv k have "offset (pending s ! k) < 0 \<or> offset (pending s ! k) \<le> int (length rows)"
    by (auto simp: view_inv_def list_all_length window_def rows)
  with rows k show ?thesis
    by (simp add: settle_def Let_def resume_Entries window_def)
qed

lemma length_window_settle_Entries:
  assumes inv: "view_inv s" and k: "k < length (pending s)"
  shows "length (window (settle k (Entries es) s)) = length (window s) + length es"
proof -
  from inv k have "offset (pending s ! k) < 0 \<or> offset (pending s ! k) \<le> int (length (window s))"
    by (auto simp: view_inv_def list_all_length)
  then show ?thesis
    unfolding settle_Entries [OF inv k] by (auto simp: window_def)
qed

lemma settle_NoResult:
  "k < length (pending s) \<Longrightarrow>
   settle k NoResult s
   = run_callback (callback (pending s ! k))
       (s\<lparr>pending := take k (pending s) @ drop (Suc k) (pending s)\<rparr>)"
  by (simp add: settle_def Let_def resume_NoResult)

lemma settle_Rejected:
  "k < length (pending s) \<Longrightarrow>
   settle k Rejected s
   = s\<lparr>pending := take k (pending s) @ drop (Suc k) (pending s),
       errors := errors s @ [SourceRejected]\<rparr>"
  by (simp add: settle_def Let_def resume_Rejected)

lemma settle_out_of_range: "\<not> k < length (pending s) \<Longrightarrow> settle k res s = s"
  by (simp add: settle_def)

lemma view_inv_settle:
  assumes inv: "view_inv s"
  shows "view_inv (settle k res s)"
proof (cases "k < length (pending s)")
  case False
  with inv show ?thesis by (simp add: settle_out_of_range)
next
  case k: True
  from inv have rem: "list_all (\<lambda>p. offset p < 0 \<or> offset p \<le> int (length (window s)))
      (take k (pending s) @ drop (Suc k) (pending s))"
    unfolding view_inv_def by (intro list_all_remove_nth) simp
  show ?thesis
  proof (cases res)
    case (Entries es)
    let ?s' = "settle k (Entries es) s"
    have len: "length (window ?s') = length (window s) + length es"
      using inv k by (rule length_window_settle_Entries)
    have "list_all (\<lambda>p. offset p < 0 \<or> offset p \<le> int (length (window s) + length es))
      (take k (pending s) @ drop (Suc k) (pending s))"
      using rem by (rule list_all_mono_len) simp
    moreover have "pending ?s' = take k (pending s) @ drop (Suc k) (pending s)"
      and "lastOffset ?s' = lastOffset s"
      and "disassembledInstructions ?s' \<noteq> None"
      by (simp_all add: settle_Entries [OF inv k])
    ultimately show ?thesis
      using inv unfolding Entries view_inv_def len by simp
  next
    case NoResult
    with inv rem k show ?thesis
      by (auto simp: settle_NoResult view_inv_def window_def)
  next
    case Rejected
    with inv rem k show ?thesis
      by (auto simp: settle_Rejected view_inv_def window_def)
  qed
qed

lemma view_inv_step: "view_inv s \<Longrightarrow> view_inv (step ev s)"
  by (cases ev) (auto simp: view_inv_onDidScroll view_inv_settle, simp add: view_inv_def window_def)

lemma view_inv_run: "view_inv s \<Longrightarrow> view_inv (run evs s)"
  by (induction evs arbitrary: s) (simp_all add: view_inv_step)

lemma view_inv_after: "view_inv (after lh evs)"
  by (simp add: after_def view_inv_run view_inv_createEditor)

lemma onDidScroll_backward:
  "backward_cond e \<Longrightarrow>
   onDidScroll e s
   = s\<lparr>lastOffset := lastOffset s - NUM_INSTRUCTIONS_TO_LOAD,
       pending := pending s @
         [\<lparr>offset = lastOffset s - NUM_INSTRUCTIONS_TO_LOAD,
           instructionCount = NUM_INSTRUCTIONS_TO_LOAD,
           callback = RevealAsserted (topElement_of (scrollTop e) (lineHeight s)) 0\<rparr>]\<rparr>"
  by (simp add: onDidScroll_def loadDisassembledInstructions_def Let_def)

lemma cond_exclusive: "\<not> (backward_cond e \<and> forward_cond e)"
  by (auto simp: backward_cond_def forward_cond_def)

lemma onDidScroll_forward:
  "forward_cond e \<Longrightarrow> disassembledInstructions s \<noteq> None \<Longrightarrow>
   onDidScroll e s
   = s\<lparr>pending := pending s @
         [\<lparr>offset = int (length (window s)),
           instructionCount = NUM_INSTRUCTIONS_TO_LOAD,
           callback = NoCallback\<rparr>]\<rparr>"
  using cond_exclusive [of e]
  by (auto simp: onDidScroll_def loadDisassembledInstructions_def window_def)

lemma onDidScroll_neither:
  "\<not> backward_cond e \<Longrightarrow> \<not> forward_cond e \<Longrightarrow> onDidScroll e s = s"
  by (simp add: onDidScroll_def)

lemma instruction_new_entry [simp]: "instruction (new_entry x) = x"
  by (simp add: new_entry_def)

lemma map_instruction_new_entry [simp]: "map instruction (map new_entry xs) = xs"
  by (induction xs) simp_all

lemma initialize_eq:
  "initialize src n lh
   = \<lparr>lineHeight = lh,
      disassembledInstructions = Some (map new_entry (map src [- 50..- 50 + int n - 1])),
      lastOffset = - 50, pending = [], reveals = [(Some 50, 0.5)], errors = []\<rparr>"
  by (simp add: initialize_def source_page_def createEditor_def constructed_def settle_def
      view_defs loadDisassembledInstructions_resume_def table_splice_def run_callback_def)

lemma fetch_and_merge_backward:
  assumes idle: "pending s = []" and inv: "view_inv s" and cond: "backward_cond e"
  shows "fetch_and_merge src (e, n) s
         = s\<lparr>lastOffset := lastOffset s - 50,
             disassembledInstructions :=
               Some (map new_entry (map src [lastOffset s - 50..lastOffset s - 50 + int n - 1])
                     @ window s),
             reveals := reveals s @ [(topElement_of (scrollTop e) (lineHeight s), 0)]\<rparr>"
proof -
  let ?s1 = "onDidScroll e s"
  have inv1: "view_inv ?s1"
    using inv by (rule view_inv_onDidScroll)
  then have tab: "disassembledInstructions ?s1 \<noteq> None"
    by (simp add: view_inv_def)
  have p1: "pending ?s1 = [\<lparr>offset = lastOffset s - 50, instructionCount = 50,
      callback = RevealAsserted (topElement_of (scrollTop e) (lineHeight s)) 0\<rparr>]"
    by (simp add: onDidScroll_backward [OF cond] idle NUM_INSTRUCTIONS_TO_LOAD_def)
  have neg: "lastOffset s - 50 < 0"
    using inv by (simp add: view_inv_def NUM_INSTRUCTIONS_TO_LOAD_def)
  have k: "0 < length (pending ?s1)"
    by (simp add: p1)
  have "fetch_and_merge src (e, n) s
        = settle 0 (Entries (map src [lastOffset s - 50..lastOffset s - 50 + int n - 1])) ?s1"
    by (simp add: fetch_and_merge_def Let_def p1 idle source_page_def)
  also have "\<dots> = s\<lparr>lastOffset := lastOffset s - 50,
             disassembledInstructions :=
               Some (map new_entry (map src [lastOffset s - 50..lastOffset s - 50 + int n - 1])
                     @ window s),
             reveals := reveals s @ [(topElement_of (scrollTop e) (lineHeight s), 0)]\<rparr>"
    unfolding settle_Entries [OF inv1 k] using neg tab
    by (auto simp: p1 run_callback_def)
       (simp add: onDidScroll_backward [OF cond] idle NUM_INSTRUCTIONS_TO_LOAD_def window_def)
  finally show ?thesis .
qed

lemma fetch_and_merge_forward:
  assumes idle: "pending s = []" and inv: "view_inv s" and cond: "forward_cond e"
  shows "fetch_and_merge src (e, n) s
         = s\<lparr>disassembledInstructions :=
               Some (window s @ map new_entry
                 (map src [int (length (window s))..int (length (window s)) + int n - 1]))\<rparr>"
proof -
  let ?s1 = "onDidScroll e s"
  from inv have tab: "disassembledInstructions s \<noteq> None"
    by (simp add: view_inv_def)
  have inv1: "view_inv ?s1"
    using inv by (rule view_inv_onDidScroll)
  have s1: "?s1 = s\<lparr>pending := [\<lparr>offset = int (length (window s)), instructionCount = 50,
      callback = NoCallback\<rparr>]\<rparr>"
    by (simp add: onDidScroll_forward [OF cond tab] idle NUM_INSTRUCTIONS_TO_LOAD_def)
  have k: "0 < length (pending ?s1)"
    by (simp add: s1)
  have "fetch_and_merge src (e, n) s
        = settle 0 (Entries (map src [int (length (window s))..int (length (window s)) + int n - 1])) ?s1"
    by (simp add: fetch_and_merge_def Let_def s1 idle source_page_def)
  also have "\<dots> = s\<lparr>disassembledInstructions :=
               Some (window s @ map new_entry
                 (map src [int (length (window s))..int (length (window s)) + int n - 1]))\<rparr>"
    unfolding settle_Entries [OF inv1 k]
    by (simp add: s1 run_callback_def window_def idle)
  finally show ?thesis .
qed

lemma fetch_and_merge_neither:
  "\<not> backward_cond e \<Longrightarrow> \<not> forward_cond e \<Longrightarrow> fetch_and_merge src (e, n) s = s"
  by (simp add: fetch_and_merge_def onDidScroll_neither)

lemma strict_sorted_upto: "sorted_wrt (<) [a..b::int]"
  by (simp add: strict_sorted_iff)

text \<open>The rows of the window as positions of the source, between operations.\<close>

lemma merge_positions:
  assumes idle: "pending s = []" and inv: "view_inv s"
    and rows: "map instruction (window s) = map src ps"
    and sorted: "sorted_wrt (<) ps"
    and bounds: "\<forall>p \<in> set ps. lastOffset s \<le> p \<and> p < int (length ps)"
    and n: "n \<le> 50"
  shows "\<exists>ps'. map instruction (window (fetch_and_merge src (e, n) s)) = map src ps'
           \<and> sorted_wrt (<) ps'
           \<and> (\<forall>p \<in> set ps'. lastOffset (fetch_and_merge src (e, n) s) \<le> p \<and> p < int (length ps'))"
proof -
  from inv have off: "lastOffset s \<le> - 50"
    by (simp add: view_inv_def NUM_INSTRUCTIONS_TO_LOAD_def)
  have len: "length ps = length (window s)"
    using rows by (metis length_map)
  consider (bwd) "backward_cond e" | (fwd) "forward_cond e"
    | (none) "\<not> backward_cond e" "\<not> forward_cond e"
    by blast
  then show ?thesis
  proof cases
    case bwd
    let ?page = "[lastOffset s - 50..lastOffset s - 50 + int n - 1]"
    have "map instruction (window (fetch_and_merge src (e, n) s)) = map src (?page @ ps)"
      by (simp add: fetch_and_merge_backward [OF idle inv bwd] window_def rows [unfolded window_def])
    moreover have "sorted_wrt (<) (?page @ ps)"
      using sorted bounds n by (auto simp: sorted_wrt_append strict_sorted_upto)
    moreover have "\<forall>p \<in> set (?page @ ps).
        lastOffset (fetch_and_merge src (e, n) s) \<le> p \<and> p < int (length (?page @ ps))"
      using bounds n off by (auto simp: fetch_and_merge_backward [OF idle inv bwd])
    ultimately show ?thesis by blast
  next
    case fwd
    let ?page = "[int (length ps)..int (length ps) + int n - 1]"
    have "map instruction (window (fetch_and_merge src (e, n) s)) = map src (ps @ ?page)"
      by (simp add: fetch_and_merge_forward [OF idle inv fwd] window_def rows [unfolded window_def] len)
    moreover have "sorted_wrt (<) (ps @ ?page)"
      using sorted bounds by (auto simp: sorted_wrt_append strict_sorted_upto)
    moreover have "\<forall>p \<in> set (ps @ ?page).
        lastOffset (fetch_and_merge src (e, n) s) \<le> p \<and> p < int (length (ps @ ?page))"
      using bounds off by (auto simp: fetch_and_merge_forward [OF idle inv fwd])
    ultimately show ?thesis by blast
  next
    case none
    with rows sorted bounds show ?thesis
      by (auto simp: fetch_and_merge_neither)
  qed
qed

lemma merge_idle:
  assumes "pending s = []" and "view_inv s"
  shows "pending (fetch_and_merge src (e, n) s) = []
       \<and> view_inv (fetch_and_merge src (e, n) s)
       \<and> lastOffset (fetch_and_merge src (e, n) s)
           = (if backward_cond e then lastOffset s - 50 else lastOffset s)"
proof -
  have "view_inv (fetch_and_merge src (e, n) s)"
    using assms(2) by (simp add: fetch_and_merge_def Let_def view_inv_onDidScroll view_inv_settle)
  moreover have "pending (fetch_and_merge src (e, n) s) = []
       \<and> lastOffset (fetch_and_merge src (e, n) s)
           = (if backward_cond e then lastOffset s - 50 else lastOffset s)"
    using cond_exclusive [of e]
    by (cases "backward_cond e"; cases "forward_cond e")
       (simp_all add: fetch_and_merge_backward fetch_and_merge_forward fetch_and_merge_neither assms)
  ultimately show ?thesis by simp
qed

lemma merge_all_positions:
  assumes "pending s = []" and "view_inv s"
    and "map instruction (window s) = map src ps"
    and "sorted_wrt (<) ps"
    and "\<forall>p \<in> set ps. lastOffset s \<le> p \<and> p < int (length ps)"
    and "\<forall>en \<in> set ops. snd en \<le> 50"
  shows "(\<exists>ps'. map instruction (window (fetch_and_merge_all src ops s)) = map src ps'
            \<and> sorted_wrt (<) ps')
       \<and> lastOffset (fetch_and_merge_all src ops s)
           = lastOffset s - 50 * int (length (filter (\<lambda>en. backward_cond (fst en)) ops))"
  using assms
proof (induction ops arbitrary: s ps)
  case Nil
  then show ?case by auto
next
  case (Cons en ops)
  obtain e n where en: "en = (e, n)"
    by (cases en)
  let ?s1 = "fetch_and_merge src (e, n) s"
  from Cons.prems(6) en have n: "n \<le> 50" and rest: "\<forall>en \<in> set ops. snd en \<le> 50"
    by auto
  from merge_idle [OF Cons.prems(1,2), of src e n]
  have idle1: "pending ?s1 = []" and inv1: "view_inv ?s1"
    and off1: "lastOffset ?s1 = (if backward_cond e then lastOffset s - 50 else lastOffset s)"
    by simp_all
  from merge_positions [OF Cons.prems(1-5) n, of e]
  obtain ps1 where ps1: "map instruction (window ?s1) = map src ps1" "sorted_wrt (<) ps1"
    "\<forall>p \<in> set ps1. lastOffset ?s1 \<le> p \<and> p < int (length ps1)"
    by blast
  from Cons.IH [OF idle1 inv1 ps1 rest] off1 show ?case
    by (simp add: en)
qed

lemma merge_all_full:
  assumes "pending s = []" and "view_inv s"
    and "\<exists>fs. map instruction (window s) = map src ([lastOffset s..- 1] @ fs)"
    and "\<forall>en \<in> set ops. snd en = 50"
  shows "\<exists>fs. map instruction (window (fetch_and_merge_all src ops s))
              = map src ([lastOffset (fetch_and_merge_all src ops s)..- 1] @ fs)"
  using assms
proof (induction ops arbitrary: s)
  case Nil
  then show ?case by simp
next
  case (Cons en ops)
  obtain e where en: "en = (e, 50)"
    using Cons.prems(4) by (cases en) auto
  let ?s1 = "fetch_and_merge src (e, 50) s"
  note idle = Cons.prems(1) and inv = Cons.prems(2)
  from inv have off: "lastOffset s \<le> - 50"
    by (simp add: view_inv_def NUM_INSTRUCTIONS_TO_LOAD_def)
  from Cons.prems(3) obtain fs
    where fs: "map instruction (window s) = map src ([lastOffset s..- 1] @ fs)"
    by blast
  from merge_idle [OF idle inv, of src e 50]
  have idle1: "pending ?s1 = []" and inv1: "view_inv ?s1"
    by simp_all
  have "\<exists>fs1. map instruction (window ?s1) = map src ([lastOffset ?s1..- 1] @ fs1)"
  proof -
    consider (bwd) "backward_cond e" | (fwd) "forward_cond e"
      | (none) "\<not> backward_cond e" "\<not> forward_cond e"
      by blast
    then show ?thesis
    proof cases
      case bwd
      have "[lastOffset s - 50..- 1] = [lastOffset s - 50..lastOffset s - 1] @ [lastOffset s..- 1]"
        using off by (intro upto_split1) simp_all
      then have "map instruction (window ?s1) = map src ([lastOffset ?s1..- 1] @ fs)"
        by (simp add: fetch_and_merge_backward [OF idle inv bwd] window_def fs [unfolded window_def])
      then show ?thesis by blast
    next
      case fwd
      have "map instruction (window ?s1)
            = map src ([lastOffset ?s1..- 1]
                @ (fs @ [int (length (window s))..int (length (window s)) + int 50 - 1]))"
        by (simp add: fetch_and_merge_forward [OF idle inv fwd] window_def fs [unfolded window_def])
      then show ?thesis by blast
    next
      case none
      with fs show ?thesis
        by (auto simp: fetch_and_merge_neither)
    qed
  qed
  from Cons.IH [OF idle1 inv1 this] Cons.prems(4) show ?case
    by (simp add: en)
qed

lemma view_inv_initialize: "view_inv (initialize src n lh)"
  by (simp add: initialize_eq view_inv_def window_def NUM_INSTRUCTIONS_TO_LOAD_def)

section \<open>Lemmas about runs with overlapping loads\<close>

lemma pos_inv_iff:
  "pos_inv ps s \<longleftrightarrow>
     distinct ps \<and> lastOffset s mod 50 = 0
     \<and> (\<forall>p \<in> set ps. (p < 0 \<longrightarrow> lastOffset s \<le> p) \<and> (0 \<le> p \<longrightarrow> p < int (length ps)))
     \<and> (\<forall>q \<in> set (pending s).
           (offset q < 0 \<longrightarrow> lastOffset s \<le> offset q \<and> offset q mod 50 = 0
              \<and> (\<forall>p \<in> set ps. \<not> (offset q \<le> p \<and> p < offset q + 50)))
           \<and> (0 \<le> offset q \<longrightarrow> (\<forall>p \<in> set ps. p < offset q)))
     \<and> distinct (filter (\<lambda>a. a < 0) (map offset (pending s)))
     \<and> length (filter (\<lambda>q. 0 \<le> offset q) (pending s)) \<le> 1"
  unfolding pos_inv_def list_all_iff
  by (intro arg_cong2 [where f = "(\<and>)"] refl ball_cong) auto

lemma lastOffset_settle [simp]: "lastOffset (settle k res s) = lastOffset s"
  by (auto simp: settle_def Let_def loadDisassembledInstructions_resume_def table_splice_def
      split: disassemble_result.splits option.splits sum.splits)

lemma lastOffset_step:
  "lastOffset (step ev s) = lastOffset s - (if is_backward_scroll ev then 50 else 0)"
  by (cases ev)
     (auto simp: onDidScroll_def loadDisassembledInstructions_def Let_def
        NUM_INSTRUCTIONS_TO_LOAD_def split: option.splits)

lemma lastOffset_run:
  "lastOffset (run evs s) = lastOffset s - 50 * int (length (filter is_backward_scroll evs))"
  by (induction evs arbitrary: s) (simp_all add: lastOffset_step)

lemma lastOffset_after:
  "lastOffset (after lh evs) = - 50 - 50 * int (length (filter is_backward_scroll evs))"
  by (simp add: after_def lastOffset_run createEditor_def constructed_def
      loadDisassembledInstructions_def NUM_INSTRUCTIONS_TO_LOAD_def Let_def)

lemma pos_inv_createEditor: "pos_inv [] (createEditor (constructed lh))"
  by (simp add: pos_inv_def createEditor_def constructed_def loadDisassembledInstructions_def
      NUM_INSTRUCTIONS_TO_LOAD_def Let_def)

lemma pos_inv_backward:
  assumes inv: "pos_inv ps s" and vinv: "view_inv s" and cond: "backward_cond e"
  shows "pos_inv ps (onDidScroll e s)"
proof -
  from vinv have lo: "lastOffset s \<le> - 50"
    by (simp add: view_inv_def NUM_INSTRUCTIONS_TO_LOAD_def)
  have "distinct (filter (\<lambda>a. a < 0) (map offset (pending s)) @ [lastOffset s - 50])"
    using inv by (auto simp: pos_inv_def list_all_iff)
  with inv lo show ?thesis
    unfolding onDidScroll_backward [OF cond]
    by (auto simp: pos_inv_def list_all_iff NUM_INSTRUCTIONS_TO_LOAD_def
        split: if_splits)
qed


lemma pos_inv_forward:
  assumes inv: "pos_inv ps s" and vinv: "view_inv s" and cond: "forward_cond e"
    and len: "length ps = length (window s)"
    and none: "list_all (\<lambda>p. offset p < 0) (pending s)"
  shows "pos_inv ps (onDidScroll e s)"
proof -
  from vinv have tab: "disassembledInstructions s \<noteq> None"
    by (simp add: view_inv_def)
  from none have "filter (\<lambda>q. 0 \<le> offset q) (pending s) = []"
    by (auto simp: list_all_iff filter_empty_conv)
  with inv len show ?thesis
    unfolding onDidScroll_forward [OF cond tab]
    by (auto simp: pos_inv_def list_all_iff split: if_splits)
qed

lemma pos_inv_I:
  assumes "distinct ps" and "lo mod 50 = 0"
    and "list_all (\<lambda>p. if p < 0 then lo \<le> p else p < int (length ps)) ps"
    and "list_all (\<lambda>q. if offset q < 0
                       then lo \<le> offset q \<and> offset q mod 50 = 0
                            \<and> list_all (\<lambda>p. \<not> (offset q \<le> p \<and> p < offset q + 50)) ps
                       else list_all (\<lambda>p. p < offset q) ps) pend"
    and "distinct (filter (\<lambda>a. a < 0) (map offset pend))"
    and "length (filter (\<lambda>q. 0 \<le> offset q) pend) \<le> 1"
    and "lastOffset s = lo" and "pending s = pend"
  shows "pos_inv ps s"
  unfolding pos_inv_def assms(7,8) using assms(1-6) by (intro conjI)

lemma pos_inv_cong:
  "lastOffset s' = lastOffset s \<Longrightarrow> pending s' = pending s \<Longrightarrow> pos_inv ps s' = pos_inv ps s"
  by (simp add: pos_inv_def)

lemma distinct_insert_at:
  "distinct (take m xs @ ys @ drop m xs) = (distinct xs \<and> distinct ys \<and> set xs \<inter> set ys = {})"
proof -
  have d: "distinct xs = (distinct (take m xs) \<and> distinct (drop m xs)
      \<and> set (take m xs) \<inter> set (drop m xs) = {})"
    by (metis append_take_drop_id distinct_append)
  have s: "set xs = set (take m xs) \<union> set (drop m xs)"
    by (metis append_take_drop_id set_append)
  show ?thesis
    unfolding d s by auto
qed

lemma set_insert_at: "set (take m xs @ ys @ drop m xs) = set xs \<union> set ys"
  by (metis append_take_drop_id set_append sup_assoc sup_commute)


lemma split_pending:
  assumes "k < length xs"
  obtains A B where "xs = A @ xs ! k # B" and "take k xs @ drop (Suc k) xs = A @ B"
  using assms id_take_nth_drop [of k xs] by blast

text \<open>Removing a waiting load keeps the invariant.\<close>

lemma pos_inv_remove:
  assumes "pos_inv ps s" and "pending s = A @ q # B"
  shows "pos_inv ps (s\<lparr>pending := A @ B\<rparr>)"
  using assms by (auto simp: pos_inv_iff list_all_iff split: if_splits)

text \<open>A page of a backward load goes in front.\<close>

lemma pos_inv_backward_page:
  assumes inv: "pos_inv ps s" and pend: "pending s = A @ q # B"
    and neg: "offset q < 0" and n: "n \<le> 50"
  shows "pos_inv ([offset q..offset q + int n - 1] @ ps)
           (s\<lparr>pending := A @ B, disassembledInstructions := tab\<rparr>)"
proof -
  let ?a = "offset q"
  from inv pend neg have q: "lastOffset s \<le> ?a" "?a mod 50 = 0"
    "\<forall>p \<in> set ps. \<not> (?a \<le> p \<and> p < ?a + 50)"
    by (auto simp: pos_inv_iff)
  from neg q(2) have a50: "?a \<le> - 50"
    by presburger
  from inv pend neg have "?a \<notin> offset ` (set A \<union> set B)"
    by (auto simp: pos_inv_iff)
  then have others: "\<forall>r \<in> set A \<union> set B. offset r < 0 \<longrightarrow> offset r \<noteq> ?a"
    by (metis image_eqI)
  have apart: "r + 50 \<le> ?a \<or> ?a + 50 \<le> r" if "r mod 50 = 0" "r \<noteq> ?a" for r
    using that q(2) by presburger
  have d: "distinct ([?a..?a + int n - 1] @ ps)"
    using inv q(3) n by (auto simp: pos_inv_iff)
  have pos: "list_all (\<lambda>p. if p < 0 then lastOffset s \<le> p
      else p < int (length ([?a..?a + int n - 1] @ ps))) ([?a..?a + int n - 1] @ ps)"
    using inv q(1) a50 n by (auto simp: pos_inv_iff list_all_iff split: if_splits)
  have pendings: "list_all (\<lambda>r. if offset r < 0
        then lastOffset s \<le> offset r \<and> offset r mod 50 = 0
             \<and> list_all (\<lambda>p. \<not> (offset r \<le> p \<and> p < offset r + 50)) ([?a..?a + int n - 1] @ ps)
        else list_all (\<lambda>p. p < offset r) ([?a..?a + int n - 1] @ ps)) (A @ B)"
    unfolding list_all_iff
  proof (intro ballI)
    fix r
    assume r: "r \<in> set (A @ B)"
    show "if offset r < 0
        then lastOffset s \<le> offset r \<and> offset r mod 50 = 0
             \<and> (\<forall>p \<in> set ([?a..?a + int n - 1] @ ps). \<not> (offset r \<le> p \<and> p < offset r + 50))
        else (\<forall>p \<in> set ([?a..?a + int n - 1] @ ps). p < offset r)"
    proof (cases "offset r < 0")
      case True
      with inv pend r have old: "lastOffset s \<le> offset r" "offset r mod 50 = 0"
        "\<forall>p \<in> set ps. \<not> (offset r \<le> p \<and> p < offset r + 50)"
        by (auto simp: pos_inv_iff)
      from others r True have "offset r \<noteq> ?a"
        by auto
      from apart [OF old(2) this] old n True show ?thesis
        by auto
    next
      case False
      with inv pend r have "\<forall>p \<in> set ps. p < offset r"
        by (auto simp: pos_inv_iff)
      with False a50 n show ?thesis
        by auto
    qed
  qed
  from inv pend have rest: "lastOffset s mod 50 = 0"
    "distinct (filter (\<lambda>a. a < 0) (map offset (A @ B)))"
    "length (filter (\<lambda>q. 0 \<le> offset q) (A @ B)) \<le> 1"
    by (auto simp: pos_inv_iff list_all_iff split: if_splits)
  show ?thesis
    by (rule pos_inv_I [OF d rest(1) pos pendings rest(2,3)]) simp_all
qed

text \<open>A page of the forward load goes to the index at which it was issued.\<close>

lemma pos_inv_forward_page:
  assumes inv: "pos_inv ps s" and pend: "pending s = A @ q # B"
    and nonneg: "0 \<le> offset q" and le: "offset q \<le> int (length ps)"
  shows "pos_inv (take (nat (offset q)) ps @ [offset q..offset q + int n - 1]
            @ drop (nat (offset q)) ps)
           (s\<lparr>pending := A @ B, disassembledInstructions := tab\<rparr>)"
proof -
  let ?a = "offset q"
  let ?ps' = "take (nat ?a) ps @ [?a..?a + int n - 1] @ drop (nat ?a) ps"
  from inv pend nonneg have q: "\<forall>p \<in> set ps. p < ?a"
    by (auto simp: pos_inv_iff)
  from inv pend nonneg have only: "\<forall>r \<in> set A \<union> set B. offset r < 0"
    by (auto simp: pos_inv_iff filter_empty_conv split: if_splits)
  have set': "set ?ps' = set ps \<union> {?a..?a + int n - 1}"
    using set_insert_at [of "nat ?a" ps "[?a..?a + int n - 1]"] by simp
  have len': "int (length ?ps') = int (length ps) + int n"
    using le nonneg by auto
  have d: "distinct ?ps'"
    unfolding distinct_insert_at using inv q by (auto simp: pos_inv_iff)
  have pos: "list_all (\<lambda>p. if p < 0 then lastOffset s \<le> p else p < int (length ?ps')) ?ps'"
    unfolding list_all_iff set' len'
    using inv le nonneg by (auto simp: pos_inv_iff list_all_iff split: if_splits)
  have pendings: "list_all (\<lambda>r. if offset r < 0
        then lastOffset s \<le> offset r \<and> offset r mod 50 = 0
             \<and> list_all (\<lambda>p. \<not> (offset r \<le> p \<and> p < offset r + 50)) ?ps'
        else list_all (\<lambda>p. p < offset r) ?ps') (A @ B)"
    unfolding list_all_iff set'
  proof (intro ballI)
    fix r
    assume r: "r \<in> set (A @ B)"
    with only have neg: "offset r < 0"
      by auto
    with inv pend r have old: "lastOffset s \<le> offset r" "offset r mod 50 = 0"
      "\<forall>p \<in> set ps. \<not> (offset r \<le> p \<and> p < offset r + 50)"
      by (auto simp: pos_inv_iff)
    from neg old(2) have "offset r \<le> - 50"
      by presburger
    with old neg nonneg show "if offset r < 0
        then lastOffset s \<le> offset r \<and> offset r mod 50 = 0
             \<and> (\<forall>p \<in> set ps \<union> {?a..?a + int n - 1}. \<not> (offset r \<le> p \<and> p < offset r + 50))
        else (\<forall>p \<in> set ps \<union> {?a..?a + int n - 1}. p < offset r)"
      by auto
  qed
  from inv pend have rest: "lastOffset s mod 50 = 0"
    "distinct (filter (\<lambda>a. a < 0) (map offset (A @ B)))"
    "length (filter (\<lambda>q. 0 \<le> offset q) (A @ B)) \<le> 1"
    by (auto simp: pos_inv_iff list_all_iff split: if_splits)
  show ?thesis
    by (rule pos_inv_I [OF d rest(1) pos pendings rest(2,3)]) simp_all
qed

lemma window_onDidScroll [simp]: "window (onDidScroll e s) = window s"
  by (auto simp: onDidScroll_def loadDisassembledInstructions_def window_def Let_def
      split: option.splits)

lemma pos_settle:
  assumes vinv: "view_inv s" and inv: "pos_inv ps s"
    and rows: "map instruction (window s) = map src ps"
    and k: "k < length (pending s)" and ans: "answers src (pending s ! k) res"
  shows "\<exists>ps'. pos_inv ps' (settle k res s)
           \<and> map instruction (window (settle k res s)) = map src ps'"
proof -
  let ?q = "pending s ! k"
  from k obtain A B where pend: "pending s = A @ ?q # B"
    and rem: "take k (pending s) @ drop (Suc k) (pending s) = A @ B"
    by (rule split_pending)
  have len: "length ps = length (window s)"
    using rows by (metis length_map)
  show ?thesis
  proof (cases res)
    case Rejected
    have "pos_inv ps (settle k res s) = pos_inv ps (s\<lparr>pending := A @ B\<rparr>)"
      unfolding Rejected settle_Rejected [OF k] rem
      by (intro pos_inv_cong) simp_all
    with pos_inv_remove [OF inv pend] have "pos_inv ps (settle k res s)"
      by simp
    moreover have "window (settle k res s) = window s"
      unfolding Rejected settle_Rejected [OF k] by (simp add: window_def)
    ultimately show ?thesis
      using rows by auto
  next
    case NoResult
    have "pos_inv ps (settle k res s) = pos_inv ps (s\<lparr>pending := A @ B\<rparr>)"
      unfolding NoResult settle_NoResult [OF k] rem
      by (intro pos_inv_cong) simp_all
    with pos_inv_remove [OF inv pend] have "pos_inv ps (settle k res s)"
      by simp
    moreover have "window (settle k res s) = window s"
      unfolding NoResult settle_NoResult [OF k] by (simp add: window_def)
    ultimately show ?thesis
      using rows by auto
  next
    case (Entries es)
    let ?a = "offset ?q"
    let ?page = "[?a..?a + int (length es) - 1]"
    from ans have n: "length es \<le> 50" and es: "es = map src ?page"
      by (simp_all add: Entries)
    show ?thesis
    proof (cases "?a < 0")
      case True
      let ?ps' = "?page @ ps"
      have "pos_inv ?ps' (settle k res s) = pos_inv ?ps' (s\<lparr>pending := A @ B\<rparr>)"
        unfolding Entries settle_Entries [OF vinv k] rem
        by (intro pos_inv_cong) simp_all
      moreover have "pos_inv ?ps' (s\<lparr>pending := A @ B\<rparr>)
          = pos_inv ?ps' (s\<lparr>pending := A @ B, disassembledInstructions := None\<rparr>)"
        by (intro pos_inv_cong) simp_all
      ultimately have "pos_inv ?ps' (settle k res s)"
        using pos_inv_backward_page [OF inv pend True n, of None] by simp
      moreover have "map instruction (window (settle k res s)) = map src ?ps'"
      proof -
        have "window (settle k res s) = map new_entry es @ window s"
          unfolding Entries settle_Entries [OF vinv k] using True
          by (simp add: window_def)
        then have "map instruction (window (settle k res s)) = es @ map src ps"
          by (simp add: rows comp_def)
        also have "es = map src ?page"
          by (rule es)
        finally show ?thesis
          by simp
      qed
      ultimately show ?thesis
        by blast
    next
      case False
      then have nonneg: "0 \<le> ?a"
        by simp
      from vinv k nonneg have le: "?a \<le> int (length ps)"
        by (auto simp: view_inv_def list_all_length len)
      let ?ps' = "take (nat ?a) ps @ ?page @ drop (nat ?a) ps"
      have "pos_inv ?ps' (settle k res s) = pos_inv ?ps' (s\<lparr>pending := A @ B\<rparr>)"
        unfolding Entries settle_Entries [OF vinv k] rem
        by (intro pos_inv_cong) simp_all
      moreover have "pos_inv ?ps' (s\<lparr>pending := A @ B\<rparr>)
          = pos_inv ?ps' (s\<lparr>pending := A @ B, disassembledInstructions := None\<rparr>)"
        by (intro pos_inv_cong) simp_all
      ultimately have "pos_inv ?ps' (settle k res s)"
        using pos_inv_forward_page [OF inv pend nonneg le, of "length es" None] by simp
      moreover have "map instruction (window (settle k res s)) = map src ?ps'"
      proof -
        have "window (settle k res s)
            = take (nat ?a) (window s) @ map new_entry es @ drop (nat ?a) (window s)"
          unfolding Entries settle_Entries [OF vinv k] using nonneg
          by (simp add: window_def)
        then have "map instruction (window (settle k res s))
            = take (nat ?a) (map src ps) @ es @ drop (nat ?a) (map src ps)"
          by (simp add: rows comp_def take_map [symmetric] drop_map [symmetric])
        also have "es = map src ?page"
          by (rule es)
        finally show ?thesis
          by (simp add: take_map drop_map)
      qed
      ultimately show ?thesis
        by blast
    qed
  qed
qed

lemma pos_step:
  assumes vinv: "view_inv s" and inv: "pos_inv ps s"
    and rows: "map instruction (window s) = map src ps"
    and ok: "allowed src ev s"
  shows "\<exists>ps'. pos_inv ps' (step ev s) \<and> map instruction (window (step ev s)) = map src ps'"
proof (cases ev)
  case (Scroll e)
  have len: "length ps = length (window s)"
    using rows by (metis length_map)
  have "pos_inv ps (onDidScroll e s)"
  proof -
    consider (bwd) "backward_cond e" | (fwd) "forward_cond e"
      | (none) "\<not> backward_cond e" "\<not> forward_cond e"
      by blast
    then show ?thesis
    proof cases
      case bwd
      with inv vinv show ?thesis by (simp add: pos_inv_backward)
    next
      case fwd
      with ok have "list_all (\<lambda>p. offset p < 0) (pending s)"
        by (simp add: Scroll)
      with inv vinv fwd len show ?thesis by (simp add: pos_inv_forward)
    next
      case none
      with inv show ?thesis by (simp add: onDidScroll_neither)
    qed
  qed
  with rows show ?thesis
    by (auto simp: Scroll)
next
  case (Settle k res)
  show ?thesis
  proof (cases "k < length (pending s)")
    case True
    with ok have "answers src (pending s ! k) res"
      by (simp add: Settle)
    from pos_settle [OF vinv inv rows True this] show ?thesis
      by (simp add: Settle)
  next
    case False
    with inv rows show ?thesis
      by (auto simp: Settle settle_out_of_range)
  qed
next
  case (ConfigurationChanged lh)
  have "pos_inv ps (s\<lparr>lineHeight := lh\<rparr>) = pos_inv ps s"
    by (intro pos_inv_cong) simp_all
  with inv rows show ?thesis
    by (auto simp: ConfigurationChanged window_def)
qed

lemma pos_run:
  assumes "allowed_run src evs s" and "view_inv s" and "pos_inv ps s"
    and "map instruction (window s) = map src ps"
  shows "\<exists>ps'. pos_inv ps' (run evs s) \<and> map instruction (window (run evs s)) = map src ps'"
  using assms
proof (induction evs arbitrary: s ps)
  case Nil
  then show ?case by auto
next
  case (Cons ev evs)
  from Cons.prems(1) have ok: "allowed src ev s" and rest: "allowed_run src evs (step ev s)"
    by simp_all
  from pos_step [OF Cons.prems(2,3,4) ok]
  obtain ps1 where ps1: "pos_inv ps1 (step ev s)"
    "map instruction (window (step ev s)) = map src ps1"
    by blast
  from Cons.IH [OF rest view_inv_step [OF Cons.prems(2)] ps1] show ?case
    by simp
qed

lemma distinct_rows_after:
  assumes "allowed_run src evs (createEditor (constructed lh))"
  shows "\<exists>ps. distinct ps \<and> map instruction (window (after lh evs)) = map src ps"
proof -
  have "map instruction (window (createEditor (constructed lh) :: 'a DisassemblyView)) = map src []"
    by (simp add: createEditor_def constructed_def loadDisassembledInstructions_def
        window_def Let_def)
  from pos_run [OF assms view_inv_createEditor pos_inv_createEditor this]
  show ?thesis
    unfolding after_def by (auto simp: pos_inv_def)
qed

section \<open>Evaluation of concrete runs\<close>

lemmas run_defs =
  after_def createEditor_def constructed_def onDidScroll_def settle_def
  loadDisassembledInstructions_def loadDisassembledInstructions_resume_def
  table_splice_def run_callback_def topElement_of_def backward_cond_def forward_cond_def
  NUM_INSTRUCTIONS_TO_LOAD_def window_def source_page_def position_source_def
  scroll_up_def scroll_up_more_def scroll_down_def scroll_down_more_def Let_def
  new_entry_def comp_def initialize_def fetch_and_merge_def getId_def row_address_def

lemmas registry_defs =
  registerIcon_def deregisterIcon_def getIcons_def getIconReferenceSchema_enum_def
  new_IconRegistry_def js_empty_def js_set_def js_delete_def js_get_own_def js_keys_def
  is_array_index_def is_digit_def decimal_value_def effective_description_def truthy_def
  localize_plain_def add_defaults_def array_splice_def Let_def List.map_filter_simps

section \<open>The window across fetch-and-merge operations (C1)\<close>

text \<open>
  When each load is settled before the next scroll event, the rows of the window are at
  strictly increasing positions of the source, and with full pages its first rows are the
  positions from \<^verbatim>\<open>_lastOffset\<close> to \<open>- 1\<close>.
\<close>

lemma serialised_window_positions:
  assumes n0: "n0 \<le> 50" and ops: "\<forall>en \<in> set ops. snd en \<le> 50"
  shows "let s = fetch_and_merge_all src ops (initialize src n0 lh)
         in (\<exists>ps. map instruction (window s) = map src ps \<and> sorted_wrt (<) ps)
          \<and> (inj (\<lambda>p. address (src p)) \<longrightarrow> distinct (map (getId address) (window s)))
          \<and> lastOffset s = - 50 - 50 * int (length (filter (\<lambda>en. backward_cond (fst en)) ops))
          \<and> (n0 = 50 \<and> (\<forall>en \<in> set ops. snd en = 50) \<longrightarrow>
               take (nat (- lastOffset s)) (map instruction (window s))
               = map src [lastOffset s..- 1])"
proof -
  define s0 where "s0 = initialize src n0 lh"
  define s where "s = fetch_and_merge_all src ops s0"
  have idle0: "pending s0 = []" and off0: "lastOffset s0 = - 50"
    and rows0: "map instruction (window s0) = map src [- 50..- 50 + int n0 - 1]"
    by (simp_all add: s0_def initialize_eq window_def)
  have inv0: "view_inv s0"
    unfolding s0_def by (rule view_inv_initialize)
  have bounds0: "\<forall>p \<in> set [- 50..- 50 + int n0 - 1].
      lastOffset s0 \<le> p \<and> p < int (length [- 50..- 50 + int n0 - 1])"
    using n0 by (auto simp: off0)
  from merge_all_positions [OF idle0 inv0 rows0 strict_sorted_upto bounds0 ops]
  obtain ps where ps: "map instruction (window s) = map src ps" "sorted_wrt (<) ps"
    and off: "lastOffset s = - 50 - 50 * int (length (filter (\<lambda>en. backward_cond (fst en)) ops))"
    unfolding s_def [symmetric] off0 by blast
  have keys: "distinct (map (getId address) (window s))" if "inj (\<lambda>p. address (src p))"
  proof -
    have "map (getId address) (window s) = map address (map instruction (window s))"
      by (simp add: getId_def comp_def)
    also have "\<dots> = map (\<lambda>p. address (src p)) ps"
      by (simp add: ps(1) comp_def)
    finally show ?thesis
      using ps(2) that
      by (auto simp: distinct_map strict_sorted_iff intro: inj_on_subset)
  qed
  have full: "take (nat (- lastOffset s)) (map instruction (window s)) = map src [lastOffset s..- 1]"
    if "n0 = 50" and all: "\<forall>en \<in> set ops. snd en = 50"
  proof -
    have "\<exists>fs. map instruction (window s0) = map src ([lastOffset s0..- 1] @ fs)"
      using rows0 by (simp add: off0 \<open>n0 = 50\<close>)
    from merge_all_full [OF idle0 inv0 this all]
    obtain fs where "map instruction (window s) = map src ([lastOffset s..- 1] @ fs)"
      unfolding s_def by blast
    then show ?thesis by simp
  qed
  from ps off keys full show ?thesis
    unfolding Let_def s_def [symmetric] s0_def [symmetric] by blast
qed

text \<open>
  Claim C1, as amended. The source holds the row \<open>src p\<close> at logical position \<open>p\<close> and
  answers a request anchored at \<open>a\<close> with the rows at \<open>a, a + 1, \<dots>\<close>, never more than
  the 50 requested.
  \<^item> After any events at all, \<^verbatim>\<open>_lastOffset\<close> is \<open>- 50\<close> minus 50 for every backward
    scroll event: it decreases by exactly the page size at each backward fetch.
  \<^item> After any events in which the source answers in this way (or fails) and no forward
    load is issued while another forward load is waiting, no two rows of the window have
    the same identity key, when the source gives different positions different addresses.
    Loads may overlap otherwise and settle in any order.
  \<^item> When each load is settled before the next scroll event, the rows of the window are
    moreover at strictly increasing positions, and with full pages the first
    \<open>- _lastOffset\<close> rows of the window are the rows at the positions from
    \<^verbatim>\<open>_lastOffset\<close> to \<open>- 1\<close> without a gap.
  Forward pages are anchored at the length of the window and not at \<^verbatim>\<open>_lastOffset\<close>
  plus the length, so nothing is said about gaps among the positions from \<open>0\<close> on.
\<close>

theorem window_positions:
  "lastOffset (after lh evs) = - 50 - 50 * int (length (filter is_backward_scroll evs))
   \<and> (allowed_run src evs (createEditor (constructed lh)) \<and> inj (\<lambda>p. address (src p)) \<longrightarrow>
        distinct (map (getId address) (window (after lh evs))))
   \<and> (n0 \<le> 50 \<and> (\<forall>en \<in> set ops. snd en \<le> 50) \<longrightarrow>
        (let s = fetch_and_merge_all src ops (initialize src n0 lh)
         in (\<exists>ps. map instruction (window s) = map src ps \<and> sorted_wrt (<) ps)
          \<and> (inj (\<lambda>p. address (src p)) \<longrightarrow> distinct (map (getId address) (window s)))
          \<and> lastOffset s = - 50 - 50 * int (length (filter (\<lambda>en. backward_cond (fst en)) ops))
          \<and> (n0 = 50 \<and> (\<forall>en \<in> set ops. snd en = 50) \<longrightarrow>
               take (nat (- lastOffset s)) (map instruction (window s))
               = map src [lastOffset s..- 1])))"
proof (intro conjI impI)
  show "lastOffset (after lh evs) = - 50 - 50 * int (length (filter is_backward_scroll evs))"
    by (rule lastOffset_after)
next
  assume run: "allowed_run src evs (createEditor (constructed lh)) \<and> inj (\<lambda>p. address (src p))"
  then obtain ps where ps: "distinct ps" "map instruction (window (after lh evs)) = map src ps"
    using distinct_rows_after by blast
  have "map (getId address) (window (after lh evs))
      = map address (map instruction (window (after lh evs)))"
    by (simp add: getId_def comp_def)
  also have "\<dots> = map (\<lambda>p. address (src p)) ps"
    by (simp add: ps(2) comp_def)
  finally show "distinct (map (getId address) (window (after lh evs)))"
    using ps(1) run by (auto simp: distinct_map intro: inj_on_subset)
next
  assume "n0 \<le> 50 \<and> (\<forall>en \<in> set ops. snd en \<le> 50)"
  then have n0: "n0 \<le> 50" and ops: "\<forall>en \<in> set ops. snd en \<le> 50"
    by simp_all
  show "let s = fetch_and_merge_all src ops (initialize src n0 lh)
         in (\<exists>ps. map instruction (window s) = map src ps \<and> sorted_wrt (<) ps)
          \<and> (inj (\<lambda>p. address (src p)) \<longrightarrow> distinct (map (getId address) (window s)))
          \<and> lastOffset s = - 50 - 50 * int (length (filter (\<lambda>en. backward_cond (fst en)) ops))
          \<and> (n0 = 50 \<and> (\<forall>en \<in> set ops. snd en = 50) \<longrightarrow>
               take (nat (- lastOffset s)) (map instruction (window s))
               = map src [lastOffset s..- 1])"
    using n0 ops by (rule serialised_window_positions)
qed

text \<open>
  The hypotheses hold, from the source whose rows are their own positions and addresses,
  for a run in which two backward loads overlap and settle in the reverse order, and for a
  forward fetch followed by a backward fetch, each settled at once with a full page.
\<close>

theorem window_positions_witness:
  "(lastOffset (after 18
      [Settle 0 (source_page position_source (- 50) 50),
       Scroll scroll_up, Scroll scroll_up_more,
       Settle 1 (source_page position_source (- 150) 50),
       Settle 0 (source_page position_source (- 100) 50)] :: int DisassemblyView) = - 150
    \<and> distinct (map (getId row_address) (window (after 18
      [Settle 0 (source_page position_source (- 50) 50),
       Scroll scroll_up, Scroll scroll_up_more,
       Settle 1 (source_page position_source (- 150) 50),
       Settle 0 (source_page position_source (- 100) 50)]))))
   \<and> (distinct (map (getId row_address)
         (window (fetch_and_merge_all position_source [(scroll_down, 50), (scroll_up, 50)]
            (initialize position_source 50 18))))
    \<and> lastOffset (fetch_and_merge_all position_source [(scroll_down, 50), (scroll_up, 50)]
         (initialize position_source 50 18)) = - 100
    \<and> take 100 (map instruction
         (window (fetch_and_merge_all position_source [(scroll_down, 50), (scroll_up, 50)]
            (initialize position_source 50 18))))
        = map position_source [- 100..- 1])"
proof -
  let ?evs = "[Settle 0 (source_page position_source (- 50) 50),
       Scroll scroll_up, Scroll scroll_up_more,
       Settle 1 (source_page position_source (- 150) 50),
       Settle 0 (source_page position_source (- 100) 50)] :: int event list"
  have run: "allowed_run position_source ?evs (createEditor (constructed 18))"
    by (simp add: run_defs)
  have scrolls: "length (filter is_backward_scroll ?evs) = 2"
    by (simp add: backward_cond_def scroll_up_def scroll_up_more_def)
  have n0: "(50::nat) \<le> 50"
    by simp
  have ops: "\<forall>en \<in> set [(scroll_down, 50::nat), (scroll_up, 50)]. snd en \<le> 50"
    by simp
  have inj: "inj (\<lambda>p. row_address (position_source p))"
    by (simp add: position_source_def row_address_def inj_def)
  have conds: "backward_cond scroll_up" "\<not> backward_cond scroll_down"
    by (simp_all add: backward_cond_def scroll_up_def scroll_down_def)
  from window_positions [of 18 ?evs position_source row_address 50
      "[(scroll_down, 50), (scroll_up, 50)]"] run scrolls n0 ops inj conds
  show ?thesis
    by (auto simp: Let_def)
qed

text \<open>
  Claim C1 fails as stated. After the first load and one forward fetch, both with full
  pages, \<^verbatim>\<open>_lastOffset\<close> is \<open>- 50\<close> and the window has 100 rows, but its rows are those at
  the positions \<open>- 50..- 1\<close> and \<open>50..99\<close>: the positions \<open>0..49\<close> of the span
  \<open>[Offset, Offset + len)\<close> are missing. And when two forward scroll events follow each
  other before the load of the first settles, both loads are anchored at 50 and the rows at
  the positions \<open>50..99\<close> are in the window twice.
\<close>

theorem window_gap_and_duplicates:
  "lastOffset (fetch_and_merge position_source (scroll_down, 50) (initialize position_source 50 18))
     = - 50
   \<and> length (window (fetch_and_merge position_source (scroll_down, 50)
        (initialize position_source 50 18))) = 100
   \<and> map instruction (window (fetch_and_merge position_source (scroll_down, 50)
        (initialize position_source 50 18)))
       = [- 50..- 1] @ [50..99]
   \<and> map instruction (window (fetch_and_merge position_source (scroll_down, 50)
        (initialize position_source 50 18)))
       \<noteq> map position_source [- 50..- 50 + 100 - 1]
   \<and> map offset (pending (after 18
        [Settle 0 (source_page position_source (- 50) 50),
         Scroll scroll_down, Scroll scroll_down_more] :: int DisassemblyView)) = [50, 50]
   \<and> map instruction (window (after 18
        [Settle 0 (source_page position_source (- 50) 50),
         Scroll scroll_down, Scroll scroll_down_more,
         Settle 0 (source_page position_source 50 50),
         Settle 0 (source_page position_source 50 50)]))
       = [- 50..- 1] @ [50..99] @ [50..99]
   \<and> \<not> distinct (map (getId row_address) (window (after 18
        [Settle 0 (source_page position_source (- 50) 50),
         Scroll scroll_down, Scroll scroll_down_more,
         Settle 0 (source_page position_source 50 50),
         Settle 0 (source_page position_source 50 50)])))"
proof -
  let ?s = "fetch_and_merge position_source (scroll_down, 50) (initialize position_source 50 18)"
  let ?t = "after 18
        [Settle 0 (source_page position_source (- 50) 50),
         Scroll scroll_down, Scroll scroll_down_more,
         Settle 0 (source_page position_source 50 50),
         Settle 0 (source_page position_source 50 50)] :: int DisassemblyView"
  have off: "lastOffset ?s = - 50"
    by (simp add: run_defs)
  have rows: "map instruction (window ?s) = [- 50..- 1] @ [50..99]"
    by (simp add: run_defs)
  have len: "length (window ?s) = 100"
    using arg_cong [OF rows, of length] by simp
  have "([- 50..- 1] @ [50..99]) ! 50 = (50::int)"
    by (simp add: nth_append nth_upto)
  moreover have "map position_source [- 50..- 50 + 100 - 1] ! 50 = 0"
    by (simp add: nth_upto position_source_def)
  ultimately have gap: "map instruction (window ?s) \<noteq> map position_source [- 50..- 50 + 100 - 1]"
    unfolding rows by (metis zero_neq_numeral)
  have both: "map offset (pending (after 18
        [Settle 0 (source_page position_source (- 50) 50),
         Scroll scroll_down, Scroll scroll_down_more] :: int DisassemblyView)) = [50, 50]"
    by (simp add: run_defs)
  have twice: "map instruction (window ?t) = [- 50..- 1] @ [50..99] @ [50..99]"
    by (simp add: run_defs)
  have "map (getId row_address) (window ?t) = map instruction (window ?t)"
    by (simp add: getId_def row_address_def)
  then have dup: "\<not> distinct (map (getId row_address) (window ?t))"
    unfolding twice by simp
  from off len rows gap both twice dup show ?thesis
    by blast
qed

section \<open>The backward fetch (C2)\<close>



section \<open>The forward fetch (C3)\<close>

text \<open>
  What the forward branch does. Take the view after \<^verbatim>\<open>createEditor\<close> and any events,
  and a scroll event whose position increased with
  \<open>scrollTop + height > scrollHeight - height\<close>. The handler issues a load of 50
  instructions at the current length of the table and does nothing else. When that load
  settles with entries and the table still has the length it had at the event (no other
  page was merged in the meantime), the entries are appended at the end of the table, the
  table is not told to reveal anything, and every row keeps its index.
\<close>

lemma forward_fetch:
  assumes cond: "forward_cond e"
  shows "let s = after lh evs;
             req = \<lparr>offset = int (length (window s)),
                    instructionCount = NUM_INSTRUCTIONS_TO_LOAD,
                    callback = NoCallback\<rparr>
         in onDidScroll e s = s\<lparr>pending := pending s @ [req]\<rparr>
          \<and> (\<forall>evs' k es.
                let s' = run evs' (onDidScroll e s);
                    s'' = settle k (Entries es) s'
                in k < length (pending s') \<and> pending s' ! k = req
                   \<and> length (window s') = length (window s) \<longrightarrow>
                   s'' = s'\<lparr>pending := take k (pending s') @ drop (Suc k) (pending s'),
                           disassembledInstructions := Some (window s' @ map new_entry es)\<rparr>
                   \<and> reveals s'' = reveals s'
                   \<and> (\<forall>i < length (window s'). window s'' ! i = window s' ! i))"
proof -
  define s where "s = after lh evs"
  define req where "req = \<lparr>offset = int (length (window s)),
                    instructionCount = NUM_INSTRUCTIONS_TO_LOAD,
                    callback = NoCallback\<rparr>"
  have inv: "view_inv s"
    unfolding s_def by (rule view_inv_after)
  then have tab: "disassembledInstructions s \<noteq> None"
    by (simp add: view_inv_def)
  have first: "onDidScroll e s = s\<lparr>pending := pending s @ [req]\<rparr>"
    by (simp add: onDidScroll_forward [OF cond tab] req_def)
  have second: "settle k (Entries es) s'
      = s'\<lparr>pending := take k (pending s') @ drop (Suc k) (pending s'),
           disassembledInstructions := Some (window s' @ map new_entry es)\<rparr>"
    if s': "s' = run evs' (onDidScroll e s)" and k: "k < length (pending s')"
      and at: "pending s' ! k = req" and len: "length (window s') = length (window s)"
    for evs' k es s'
  proof -
    have inv': "view_inv s'"
      unfolding s' by (intro view_inv_run view_inv_onDidScroll inv)
    show ?thesis
      unfolding settle_Entries [OF inv' k] at
      by (simp add: run_callback_def req_def len [symmetric])
  qed
  have third: "reveals s'' = reveals s' \<and> (\<forall>i < length (window s'). window s'' ! i = window s' ! i)"
    if "s'' = s'\<lparr>pending := ps, disassembledInstructions := Some (window s' @ new)\<rparr>"
    for s'' s' :: "'a DisassemblyView" and ps new
    using that by (simp add: window_def nth_append)
  from first second third show ?thesis
    unfolding Let_def s_def [symmetric] req_def [symmetric]
    by blast
qed

lemma forward_fetch_example:
  "onDidScroll scroll_down (after 18 [Settle 0 (source_page position_source (- 50) 50)])
   = (after 18 [Settle 0 (source_page position_source (- 50) 50)])
       \<lparr>pending := [\<lparr>offset = 50, instructionCount = 50, callback = NoCallback\<rparr>]\<rparr>
   \<and> map instruction (window (settle 0 (Entries [7, 8])
        (onDidScroll scroll_down (after 18 [Settle 0 (source_page position_source (- 50) 50)]))))
       = [- 50..- 1] @ [7, 8]
   \<and> reveals (settle 0 (Entries [7, 8])
        (onDidScroll scroll_down (after 18 [Settle 0 (source_page position_source (- 50) 50)])))
       = [(Some 50, 0.5)]"
proof -
  have cond: "forward_cond scroll_down"
    by (simp add: forward_cond_def scroll_down_def)
  from forward_fetch [OF cond, of 18 "[Settle 0 (source_page position_source (- 50) 50)]"]
  show ?thesis
    by (simp add: run_defs)
qed

text \<open>
  Claim C3, evaluated where the code departs from it: the fetched items are to be appended
  at the end of the window and the rows loaded before are to keep their indices. After the
  first page, a scroll up and a scroll down each issue a load; the backward page
  (positions \<open>- 100..- 51\<close>) settles first, and the forward page (positions \<open>50..99\<close>)
  is then inserted at index 50, the length of the table at the time of the event: between
  the backward page and the first page, not at the end, and the rows of the first page
  move from the indices \<open>50..99\<close> to \<open>100..149\<close>.
\<close>

theorem forward_fetch_stale_index:
  "map instruction (window (after 18
      [Settle 0 (source_page position_source (- 50) 50),
       Scroll scroll_up, Scroll scroll_down,
       Settle 0 (source_page position_source (- 100) 50),
       Settle 0 (source_page position_source 50 50)]))
   = [- 100..- 51] @ [50..99] @ [- 50..- 1]
   \<and> map instruction (window (after 18
      [Settle 0 (source_page position_source (- 50) 50),
       Scroll scroll_up, Scroll scroll_down,
       Settle 0 (source_page position_source (- 100) 50)]))
   = [- 100..- 51] @ [- 50..- 1]"
  by (simp add: run_defs)

section \<open>Initialization (C4)\<close>

text \<open>
  Claim C4, as amended. \<^verbatim>\<open>createEditor\<close> sets \<^verbatim>\<open>_lastOffset\<close> to \<open>- 50\<close> and issues
  the first load with that offset: the load is anchored at \<open>- 50\<close>. When it settles with
  entries, the table holds exactly these entries, from index \<open>0\<close> on (50 rows for a full
  page), \<^verbatim>\<open>_lastOffset\<close> is still \<open>- 50\<close>, and the table is told to reveal the row
  with index 50 at relative position \<open>0.5\<close>.
\<close>

theorem initialization:
  "let s0 = createEditor (constructed lh);
       s1 = settle 0 (Entries es) s0
   in lastOffset s0 = - 50 \<and> window s0 = []
    \<and> pending s0 = [\<lparr>offset = - 50, instructionCount = 50, callback = RevealOptional 50 0.5\<rparr>]
    \<and> window s1 = map new_entry es
    \<and> (length es = 50 \<longrightarrow> length (window s1) = 50)
    \<and> lastOffset s1 = - 50 \<and> pending s1 = [] \<and> reveals s1 = [(Some 50, 0.5)]"
  by (simp add: createEditor_def constructed_def settle_def view_defs
      loadDisassembledInstructions_resume_def table_splice_def run_callback_def)

theorem initialization_witness:
  "length (window (settle 0 (Entries (map position_source [- 50..- 1]))
     (createEditor (constructed 18)))) = 50
   \<and> reveals (settle 0 (Entries (map position_source [- 50..- 1]))
     (createEditor (constructed 18))) = [(Some 50, 0.5)]"
proof -
  have len: "length (map position_source [- 50..- 1]) = 50"
    by simp
  from initialization [of 18 "map position_source [- 50..- 1]"] len show ?thesis
    by (simp add: Let_def)
qed

text \<open>
  Claim C4 fails as stated: the first load is anchored at \<open>- 50\<close>, not at \<open>0\<close>, and a
  source that answers by position returns the rows at the positions \<open>- 50..- 1\<close>, not
  those at \<open>0..49\<close>.
\<close>

theorem first_load_anchor:
  "map offset (pending (createEditor (constructed 18 :: int DisassemblyView))) = [- 50]
   \<and> offset (hd (pending (createEditor (constructed 18 :: int DisassemblyView)))) \<noteq> 0
   \<and> map instruction (window (initialize position_source 50 18)) = [- 50..- 1]"
  by (simp add: run_defs)

section \<open>Scroll events while a load is waiting (C5)\<close>




section \<open>At most one fetch for a scroll event (C6)\<close>

text \<open>
  Claim C6. In any state, a scroll event issues no load or exactly one. The two conditions
  of the handler cannot hold together, and when the backward condition holds, the load
  issued is the backward one, whatever the distance to the bottom is.
\<close>

theorem at_most_one_fetch:
  "(pending (onDidScroll e s) = pending s \<or> (\<exists>p. pending (onDidScroll e s) = pending s @ [p]))
   \<and> \<not> (backward_cond e \<and> forward_cond e)
   \<and> (backward_cond e \<longrightarrow>
        pending (onDidScroll e s)
        = pending s @ [\<lparr>offset = lastOffset s - NUM_INSTRUCTIONS_TO_LOAD,
                        instructionCount = NUM_INSTRUCTIONS_TO_LOAD,
                        callback = RevealAsserted (topElement_of (scrollTop e) (lineHeight s)) 0\<rparr>])"
proof (intro conjI impI)
  show "pending (onDidScroll e s) = pending s \<or> (\<exists>p. pending (onDidScroll e s) = pending s @ [p])"
    by (auto simp: onDidScroll_def loadDisassembledInstructions_def Let_def split: option.splits)
  show "\<not> (backward_cond e \<and> forward_cond e)"
    by (rule cond_exclusive)
  show "pending (onDidScroll e s)
        = pending s @ [\<lparr>offset = lastOffset s - NUM_INSTRUCTIONS_TO_LOAD,
                        instructionCount = NUM_INSTRUCTIONS_TO_LOAD,
                        callback = RevealAsserted (topElement_of (scrollTop e) (lineHeight s)) 0\<rparr>]"
    if "backward_cond e"
    by (simp add: onDidScroll_backward [OF that])
qed

theorem at_most_one_fetch_witness:
  "backward_cond scroll_up_more
   \<and> scrollTop scroll_up_more + height scroll_up_more
       > scrollHeight scroll_up_more - height scroll_up_more
   \<and> pending (onDidScroll scroll_up_more (after 18 [] :: int DisassemblyView))
     = pending (after 18 [] :: int DisassemblyView)
       @ [\<lparr>offset = - 100, instructionCount = 50, callback = RevealAsserted (Some 50) 0\<rparr>]"
proof -
  have cond: "backward_cond scroll_up_more"
    by (simp add: backward_cond_def scroll_up_more_def)
  from at_most_one_fetch [of scroll_up_more "after 18 [] :: int DisassemblyView"] cond
  show ?thesis
    by (simp add: run_defs)
qed

section \<open>A load that fails (C7)\<close>

text \<open>
  Claim C7, evaluated where the code departs from it. After the first page, a backward
  scroll event issues a load anchored at \<open>- 100\<close>. When the source rejects it, the table
  and the reveals are as before, but \<^verbatim>\<open>_lastOffset\<close> stays at \<open>- 100\<close>, so the next
  backward scroll event issues a load anchored at \<open>- 150\<close>: the load that failed is not
  issued again. When the source resolves with no result instead, the table is as before
  but the table is still told to reveal row 50 at relative position \<open>0\<close>.
\<close>

theorem failed_backward_fetch:
  "map offset (pending (after 18
      [Settle 0 (source_page position_source (- 50) 50),
       Scroll scroll_up] :: int DisassemblyView)) = [- 100]
   \<and> window (after 18
      [Settle 0 (source_page position_source (- 50) 50),
       Scroll scroll_up, Settle 0 Rejected])
     = window (after 18 [Settle 0 (source_page position_source (- 50) 50)])
   \<and> reveals (after 18
      [Settle 0 (source_page position_source (- 50) 50),
       Scroll scroll_up, Settle 0 Rejected] :: int DisassemblyView) = [(Some 50, 0.5)]
   \<and> map offset (pending (after 18
      [Settle 0 (source_page position_source (- 50) 50),
       Scroll scroll_up, Settle 0 Rejected, Scroll scroll_up] :: int DisassemblyView)) = [- 150]
   \<and> window (after 18
      [Settle 0 (source_page position_source (- 50) 50),
       Scroll scroll_up, Settle 0 NoResult])
     = window (after 18 [Settle 0 (source_page position_source (- 50) 50)])
   \<and> reveals (after 18
      [Settle 0 (source_page position_source (- 50) 50),
       Scroll scroll_up, Settle 0 NoResult] :: int DisassemblyView)
     = [(Some 50, 0.5), (Some 50, 0)]"
  by (simp add: run_defs)

section \<open>Short pages (C8)\<close>

text \<open>
  Claim C8. Take the view after \<^verbatim>\<open>createEditor\<close> and any events, and any of its waiting
  loads. When the load settles with entries, however many, the table grows by exactly
  their number and no error is raised; with no entries at all the table stays as it is,
  again without an error.
\<close>

theorem short_page:
  assumes "k < length (pending (after lh evs))"
  shows "let s = after lh evs; s' = settle k (Entries es) s
         in length (window s') = length (window s) + length es \<and> errors s' = errors s
          \<and> window (settle k (Entries []) s) = window s
          \<and> errors (settle k (Entries []) s) = errors s"
proof -
  define s where "s = after lh evs"
  have inv: "view_inv s"
    unfolding s_def by (rule view_inv_after)
  from assms have k: "k < length (pending s)"
    by (simp add: s_def)
  have "length (window (settle k (Entries es) s)) = length (window s) + length es"
    using inv k by (rule length_window_settle_Entries)
  moreover have "errors (settle k (Entries es') s) = errors s" for es'
    unfolding settle_Entries [OF inv k] using inv
    by (simp add: errors_run_callback)
  moreover have "window (settle k (Entries []) s) = window s"
    unfolding settle_Entries [OF inv k] using inv
    by (auto simp: window_def view_inv_def)
  ultimately show ?thesis
    unfolding Let_def s_def [symmetric] by simp
qed

theorem short_page_witness:
  "length (window (settle 0 (Entries [1, 2, 3]) (after 18 [] :: int DisassemblyView))) = 3
   \<and> errors (settle 0 (Entries [1, 2, 3]) (after 18 [] :: int DisassemblyView)) = []"
proof -
  have k: "0 < length (pending (after 18 [] :: int DisassemblyView))"
    by (simp add: run_defs)
  from short_page [OF k, of "[1, 2, 3]"] show ?thesis
    by (simp add: run_defs)
qed

section \<open>Registering an icon twice (C9)\<close>

text \<open>
  What two registrations do for an id that becomes a property. Take the registry after any
  calls, and an id other than \<^verbatim>\<open>__proto__\<close>. \<^verbatim>\<open>registerIcon\<close> is called with this id twice, with any calls for
  other ids in between. Then \<^verbatim>\<open>getIcons()\<close> holds exactly one contribution with this
  id, the one of the second call; the enum of \<^verbatim>\<open>getIconReferenceSchema()\<close> holds the id
  two more times than before the two calls (twice, when it did not hold it);
  \<^verbatim>\<open>deregisterIcon\<close> then removes the first occurrence of the id from the enum and no
  other.
\<close>

lemma registerIcon_twice:
  assumes proto: "i \<noteq> ''__proto__''"
    and mid: "\<forall>c \<in> set between. call_id c \<noteq> i"
  shows "let r0 = do_calls L history new_IconRegistry;
             r1 = snd (registerIcon L i d1 descr1 depr1 r0);
             r2 = do_calls L between r1;
             r3 = snd (registerIcon L i d2 descr2 depr2 r2);
             r4 = deregisterIcon i r3
         in filter (\<lambda>c. icon_id c = i) (getIcons r3)
              = [\<lparr>icon_id = i, description = effective_description L i descr2,
                  deprecationMessage = depr2, defaults = d2\<rparr>]
          \<and> count_list (getIconReferenceSchema_enum r3) i
              = count_list (getIconReferenceSchema_enum r0) i + 2
          \<and> getIconReferenceSchema_enum r4 = remove1 i (getIconReferenceSchema_enum r3)
          \<and> count_list (getIconReferenceSchema_enum r4) i
              = count_list (getIconReferenceSchema_enum r0) i + 1"
proof -
  define r0 where "r0 = do_calls L history new_IconRegistry"
  define r1 where "r1 = snd (registerIcon L i d1 descr1 depr1 r0)"
  define r2 where "r2 = do_calls L between r1"
  define r3 where "r3 = snd (registerIcon L i d2 descr2 depr2 r2)"
  define r4 where "r4 = deregisterIcon i r3"
  have inv2: "reg_inv r2"
    unfolding r2_def r1_def r0_def
    by (intro reg_inv_do_calls reg_inv_registerIcon reg_inv_new)
  then have inv3: "reg_inv r3"
    unfolding r3_def by (rule reg_inv_registerIcon)
  have icons: "filter (\<lambda>c. icon_id c = i) (getIcons r3)
      = [\<lparr>icon_id = i, description = effective_description L i descr2,
          deprecationMessage = depr2, defaults = d2\<rparr>]"
    unfolding getIcons_for_id [OF inv3] unfolding r3_def
    by (simp add: get_own_registerIcon [OF proto])
  have c1: "count_list (enum r1) i = count_list (enum r0) i + 1"
    by (simp add: r1_def enum_registerIcon)
  have c2: "count_list (enum r2) i = count_list (enum r1) i"
    unfolding r2_def using mid by (rule count_enum_do_calls)
  have c3: "count_list (enum r3) i = count_list (enum r0) i + 2"
    using c1 c2 by (simp add: r3_def enum_registerIcon)
  have e4: "enum r4 = remove1 i (enum r3)"
    by (simp add: r4_def enum_deregisterIcon)
  have "i \<in> set (enum r3)"
    by (simp add: r3_def enum_registerIcon)
  from count_list_remove1_same [OF this] c3 e4
  have c4: "count_list (enum r4) i = count_list (enum r0) i + 1"
    by simp
  from icons c3 e4 c4 show ?thesis
    unfolding Let_def getIconReferenceSchema_enum_def r0_def r1_def r2_def r3_def r4_def
    by simp
qed

lemma registerIcon_twice_example:
  "(filter (\<lambda>c. icon_id c = ''add'')
      (getIcons (do_calls localize_plain
         [Register ''add'' add_defaults None None,
          Register ''plus'' add_defaults None None,
          Register ''add'' add_defaults (Some ''Add'') None] new_IconRegistry))
    = [\<lparr>icon_id = ''add'', description = ''Add'', deprecationMessage = None,
         defaults = add_defaults\<rparr>]
    \<and> count_list (getIconReferenceSchema_enum (do_calls localize_plain
         [Register ''add'' add_defaults None None,
          Register ''plus'' add_defaults None None,
          Register ''add'' add_defaults (Some ''Add'') None] new_IconRegistry)) ''add'' = 2)
   \<and> (getIcons (do_calls localize_plain
         [Register ''add'' add_defaults None None,
          Register ''plus'' add_defaults None None,
          Register ''add'' add_defaults (Some ''Add'') None] new_IconRegistry)
       = [\<lparr>icon_id = ''add'', description = ''Add'', deprecationMessage = None,
            defaults = add_defaults\<rparr>,
          \<lparr>icon_id = ''plus'', description = ''Icon with identifier {0}'',
            deprecationMessage = None, defaults = add_defaults\<rparr>]
    \<and> getIconReferenceSchema_enum (do_calls localize_plain
         [Register ''add'' add_defaults None None,
          Register ''plus'' add_defaults None None,
          Register ''add'' add_defaults (Some ''Add'') None] new_IconRegistry)
       = [''add'', ''plus'', ''add'']
    \<and> getIconReferenceSchema_enum (do_calls localize_plain
         [Register ''add'' add_defaults None None,
          Register ''plus'' add_defaults None None,
          Register ''add'' add_defaults (Some ''Add'') None,
          Deregister ''add''] new_IconRegistry)
       = [''plus'', ''add''])"
proof (rule conjI)
  have proto: "''add'' \<noteq> ''__proto__''"
    by simp
  have between: "\<forall>c \<in> set [Register ''plus'' add_defaults None None]. call_id c \<noteq> ''add''"
    by simp
  have fresh: "count_list (getIconReferenceSchema_enum new_IconRegistry) ''add'' = 0"
    by (simp add: getIconReferenceSchema_enum_def new_IconRegistry_def)
  have descr: "effective_description localize_plain ''add'' (Some ''Add'') = ''Add''"
    by (simp add: effective_description_def)
  from registerIcon_twice [OF proto between,
      of localize_plain "[]" add_defaults None None add_defaults "Some ''Add''" None]
  show "filter (\<lambda>c. icon_id c = ''add'')
      (getIcons (do_calls localize_plain
         [Register ''add'' add_defaults None None,
          Register ''plus'' add_defaults None None,
          Register ''add'' add_defaults (Some ''Add'') None] new_IconRegistry))
    = [\<lparr>icon_id = ''add'', description = ''Add'', deprecationMessage = None,
         defaults = add_defaults\<rparr>]
    \<and> count_list (getIconReferenceSchema_enum (do_calls localize_plain
         [Register ''add'' add_defaults None None,
          Register ''plus'' add_defaults None None,
          Register ''add'' add_defaults (Some ''Add'') None] new_IconRegistry)) ''add'' = 2"
    by (simp add: Let_def fresh descr)
next
  show "getIcons (do_calls localize_plain
         [Register ''add'' add_defaults None None,
          Register ''plus'' add_defaults None None,
          Register ''add'' add_defaults (Some ''Add'') None] new_IconRegistry)
       = [\<lparr>icon_id = ''add'', description = ''Add'', deprecationMessage = None,
            defaults = add_defaults\<rparr>,
          \<lparr>icon_id = ''plus'', description = ''Icon with identifier {0}'',
            deprecationMessage = None, defaults = add_defaults\<rparr>]
    \<and> getIconReferenceSchema_enum (do_calls localize_plain
         [Register ''add'' add_defaults None None,
          Register ''plus'' add_defaults None None,
          Register ''add'' add_defaults (Some ''Add'') None] new_IconRegistry)
       = [''add'', ''plus'', ''add'']
    \<and> getIconReferenceSchema_enum (do_calls localize_plain
         [Register ''add'' add_defaults None None,
          Register ''plus'' add_defaults None None,
          Register ''add'' add_defaults (Some ''Add'') None,
          Deregister ''add''] new_IconRegistry)
       = [''plus'', ''add'']"
    by (simp add: registry_defs)
qed

text \<open>
  Claim C9, evaluated where the code departs from it: after two registrations of an id,
  \<^verbatim>\<open>getIcons()\<close> is to hold exactly one contribution for it. For the id
  \<^verbatim>\<open>__proto__\<close> the assignment \<^verbatim>\<open>this.iconsById[id] = iconContribution\<close> replaces the
  prototype of \<^verbatim>\<open>iconsById\<close> and creates no property, so after two calls
  \<^verbatim>\<open>getIcons()\<close> holds no contribution at all, while the enum holds the id twice.
\<close>

theorem registerIcon_proto:
  "getIcons (do_calls localize_plain
      [Register ''__proto__'' add_defaults None None,
       Register ''__proto__'' add_defaults None None] new_IconRegistry) = []
   \<and> getIconReferenceSchema_enum (do_calls localize_plain
      [Register ''__proto__'' add_defaults None None,
       Register ''__proto__'' add_defaults None None] new_IconRegistry)
     = [''__proto__'', ''__proto__'']"
  by (simp add: registry_defs)

section \<open>The accessors of a Codicon (C10)\<close>

text \<open>
  Claim C10. For a Codicon constructed with the identifier \<open>s\<close>, \<^verbatim>\<open>className\<close> yields
  \<^verbatim>\<open>'codicon codicon-'\<close> followed by \<open>s\<close> and \<^verbatim>\<open>cssSelector\<close> yields
  \<^verbatim>\<open>'.codicon.codicon-'\<close> followed by \<open>s\<close>; each leaves the object as it was, and so
  yields the same value when it is called again.
\<close>

theorem codicon_accessors:
  "className (Codicon s) = (''codicon codicon-'' @ s, Codicon s)
   \<and> cssSelector (Codicon s) = (''.codicon.codicon-'' @ s, Codicon s)
   \<and> className (snd (className (Codicon s))) = className (Codicon s)
   \<and> cssSelector (snd (cssSelector (Codicon s))) = cssSelector (Codicon s)
   \<and> cssSelector (snd (className (Codicon s))) = cssSelector (Codicon s)
   \<and> className (snd (cssSelector (Codicon s))) = className (Codicon s)"
  by (simp add: className_def cssSelector_def)

end
